theory Spec2Isabelle
  imports Complex_Main "HOL-Library.Log_Nat" "HOL-Library.Word"
begin

section \<open>The controller package of kubernetes-local-volume\<close>

text \<open>
  The development embeds the package \<^verbatim>\<open>controller\<close> (the reconciliation engine):
  the error classifier, the key type and its string form, the enqueue functions, the
  worker body \<^verbatim>\<open>processNextWorkItem\<close> with \<^verbatim>\<open>handleErr\<close>, the global
  resync, the informer barrier and the context-scoped configuration.
\<close>

subsection \<open>Errors\<close>

text \<open>
  A Go \<^verbatim>\<open>error\<close> is an interface value: \<^verbatim>\<open>nil\<close>, or a value of some dynamic type
  with an \<^verbatim>\<open>Error()\<close> method. The package declares one error type of its own,
  \<^verbatim>\<open>permanentError{e error}\<close>. Every other dynamic type (the results of
  \<^verbatim>\<open>errors.New\<close> and \<^verbatim>\<open>fmt.Errorf\<close>, API errors, ...) is \<open>otherError\<close>,
  carrying the text its \<^verbatim>\<open>Error()\<close> returns. An interface value that may be
  \<^verbatim>\<open>nil\<close> is an \<open>error option\<close>, with \<open>None\<close> for \<^verbatim>\<open>nil\<close>.
\<close>

datatype error = otherError string | permanentError "error option"

text \<open>\<^verbatim>\<open>func NewPermanentError(err error) error { return permanentError{e: err} }\<close>\<close>

definition NewPermanentError :: "error option \<Rightarrow> error option" where
  "NewPermanentError err = Some (permanentError err)"

text \<open>The type switch of \<^verbatim>\<open>IsPermanentError\<close>; a \<^verbatim>\<open>nil\<close> error takes the default branch.\<close>

fun IsPermanentError :: "error option \<Rightarrow> bool" where
  "IsPermanentError (Some (permanentError e)) = True"
| "IsPermanentError _ = False"

text \<open>
  The method \<^verbatim>\<open>Error()\<close>: a permanent error answers with the text of the error it
  wraps, and with the empty string when it wraps \<^verbatim>\<open>nil\<close>.
\<close>

fun Error :: "error \<Rightarrow> string" where
  "Error (otherError msg) = msg"
| "Error (permanentError None) = []"
| "Error (permanentError (Some e)) = Error e"

subsection \<open>Keys\<close>

text \<open>
  \<^verbatim>\<open>types.NamespacedName\<close> of k8s.io/apimachinery: a struct of two strings. Its
  \<^verbatim>\<open>String()\<close> method joins them with the separator \<^verbatim>\<open>'/'\<close>.
\<close>

record NamespacedName =
  Namespace :: string
  Name :: string

definition NamespacedName_String :: "NamespacedName \<Rightarrow> string" where
  "NamespacedName_String n = Namespace n @ ''/'' @ Name n"

definition safeKey :: "NamespacedName \<Rightarrow> string" where
  "safeKey key = (if Namespace key = [] then Name key else NamespacedName_String key)"

subsection \<open>Objects and the accessor\<close>

text \<open>
  The part of \<^verbatim>\<open>metav1.Object\<close> the package reads: namespace, name, labels (a Go
  map) and the owner references, whose \<^verbatim>\<open>Controller\<close> field is a \<^verbatim>\<open>*bool\<close>.
\<close>

record OwnerReference =
  APIVersion :: string
  Kind :: string
  ownerName :: string
  Controller :: "bool option"

record Object =
  GetNamespace :: string
  GetName :: string
  GetLabels :: "string \<rightharpoonup> string"
  GetOwnerReferences :: "OwnerReference list"

text \<open>
  \<^verbatim>\<open>metav1.GetControllerOf\<close> of k8s.io/apimachinery: the first owner reference whose
  \<^verbatim>\<open>Controller\<close> pointer is set and points to \<^verbatim>\<open>true\<close>, or \<^verbatim>\<open>nil\<close>.
\<close>

definition GetControllerOf :: "Object \<Rightarrow> OwnerReference option" where
  "GetControllerOf object = find (\<lambda>ref. Controller ref = Some True) (GetOwnerReferences object)"

text \<open>
  The handlers receive an \<^verbatim>\<open>interface{}\<close>: an object, a tombstone
  (\<^verbatim>\<open>cache.DeletedFinalStateUnknown{Key, Obj}\<close>) around the last known state of a
  deleted object, or a value of any other type.
\<close>

datatype obj = Accessor Object | DeletedFinalStateUnknown string obj | NotAnObject

text \<open>
  Modelled from the spec: \<^verbatim>\<open>DeletionHandlingAccessor\<close>, a function of this package
  whose file is not among the sources. The spec describes it as an accessor tolerant of
  delete-tombstone wrappers, which extracts namespace and name even through the wrapper;
  its callers handle a non-nil error, returned here for anything that is neither an object
  nor a tombstone of one.
\<close>

fun DeletionHandlingAccessor :: "obj \<Rightarrow> error + Object" where
  "DeletionHandlingAccessor (Accessor object) = Inr object"
| "DeletionHandlingAccessor (DeletedFinalStateUnknown k (Accessor object)) = Inr object"
| "DeletionHandlingAccessor _ = Inl (otherError ''object has no accessor'')"

subsection \<open>Durations\<close>

text \<open>\<^verbatim>\<open>time.Duration\<close> is an \<^verbatim>\<open>int64\<close> count of nanoseconds; its arithmetic wraps.\<close>

type_synonym Duration = "64 word"

definition Second :: Duration where
  "Second = 1000000000"

definition Hour :: Duration where
  "Hour = 60 * (60 * Second)"

definition DefaultResyncPeriod :: Duration where
  "DefaultResyncPeriod = 10 * Hour"

subsection \<open>The controller and its work queue\<close>

text \<open>
  \<^verbatim>\<open>Impl.WorkQueue\<close> is a \<^verbatim>\<open>workqueue.RateLimitingInterface\<close> of
  k8s.io/client-go. The controller sees it through that interface only, so the model keeps
  what the controller does to it, the requests it has issued in order, and the answer
  that \<^verbatim>\<open>ShuttingDown()\<close> gives. (\<^verbatim>\<open>Len()\<close> is read for debug messages only.)
  The logger keeps the severity and the format string of each entry.
\<close>

datatype qcall =
    Get
  | Add NamespacedName
  | AddAfter NamespacedName Duration
  | AddRateLimited NamespacedName
  | Forget NamespacedName
  | Done NamespacedName

record RateLimitingInterface =
  requests :: "qcall list"
  ShuttingDown :: bool

datatype level = DebugLevel | InfoLevel | ErrorLevel

record Impl =
  WorkQueue :: RateLimitingInterface
  logger :: "(level \<times> string) list"

definition issue :: "qcall \<Rightarrow> Impl \<Rightarrow> Impl" where
  "issue call c = c\<lparr>WorkQueue := (WorkQueue c)\<lparr>requests := requests (WorkQueue c) @ [call]\<rparr>\<rparr>"

definition logf :: "level \<Rightarrow> string \<Rightarrow> Impl \<Rightarrow> Impl" where
  "logf lvl msg c = c\<lparr>logger := logger c @ [(lvl, msg)]\<rparr>"

text \<open>The requests issued on the way from \<open>c\<close> to \<open>c'\<close>, and those that put a key back.\<close>

definition issued :: "Impl \<Rightarrow> Impl \<Rightarrow> qcall list" where
  "issued c c' = drop (length (requests (WorkQueue c))) (requests (WorkQueue c'))"

fun requeues :: "qcall \<Rightarrow> bool" where
  "requeues (Add k) = True"
| "requeues (AddAfter k d) = True"
| "requeues (AddRateLimited k) = True"
| "requeues _ = False"

subsection \<open>The enqueue functions\<close>

definition EnqueueKey :: "NamespacedName \<Rightarrow> Impl \<Rightarrow> Impl" where
  "EnqueueKey key c = logf DebugLevel ''Adding to queue %s (depth: %d)'' (issue (Add key) c)"

definition EnqueueKeyAfter :: "NamespacedName \<Rightarrow> Duration \<Rightarrow> Impl \<Rightarrow> Impl" where
  "EnqueueKeyAfter key delay c =
     logf DebugLevel ''Adding to queue %s (delay: %v, depth: %d)'' (issue (AddAfter key delay) c)"

definition EnqueueAfter :: "obj \<Rightarrow> Duration \<Rightarrow> Impl \<Rightarrow> Impl" where
  "EnqueueAfter ob after c =
     (case DeletionHandlingAccessor ob of
        Inl err \<Rightarrow> logf ErrorLevel ''Enqueue'' c
      | Inr object \<Rightarrow>
          EnqueueKeyAfter \<lparr>Namespace = GetNamespace object, Name = GetName object\<rparr> after c)"

definition Enqueue :: "obj \<Rightarrow> Impl \<Rightarrow> Impl" where
  "Enqueue ob c =
     (case DeletionHandlingAccessor ob of
        Inl err \<Rightarrow> logf ErrorLevel ''Enqueue'' c
      | Inr object \<Rightarrow> EnqueueKey \<lparr>Namespace = GetNamespace object, Name = GetName object\<rparr> c)"

definition EnqueueControllerOf :: "obj \<Rightarrow> Impl \<Rightarrow> Impl" where
  "EnqueueControllerOf ob c =
     (case DeletionHandlingAccessor ob of
        Inl err \<Rightarrow> logf ErrorLevel (Error err) c
      | Inr object \<Rightarrow>
          (case GetControllerOf object of
             Some owner \<Rightarrow> EnqueueKey \<lparr>Namespace = GetNamespace object, Name = ownerName owner\<rparr> c
           | None \<Rightarrow> c))"

definition EnqueueLabelOfNamespaceScopedResource :: "string \<Rightarrow> string \<Rightarrow> obj \<Rightarrow> Impl \<Rightarrow> Impl" where
  "EnqueueLabelOfNamespaceScopedResource namespaceLabel nameLabel ob c =
     (case DeletionHandlingAccessor ob of
        Inl err \<Rightarrow> logf ErrorLevel (Error err) c
      | Inr object \<Rightarrow>
          (case GetLabels object nameLabel of
             None \<Rightarrow> logf DebugLevel ''Object %s/%s does not have a referring name label %s'' c
           | Some controllerKey \<Rightarrow>
               if namespaceLabel \<noteq> [] then
                 (case GetLabels object namespaceLabel of
                    None \<Rightarrow>
                      logf DebugLevel ''Object %s/%s does not have a referring namespace label %s'' c
                  | Some controllerNamespace \<Rightarrow>
                      EnqueueKey \<lparr>Namespace = controllerNamespace, Name = controllerKey\<rparr> c)
               else EnqueueKey \<lparr>Namespace = GetNamespace object, Name = controllerKey\<rparr> c))"

subsection \<open>The worker\<close>

text \<open>
  \<^verbatim>\<open>handleErr\<close>: log the error, then requeue with backoff when the error is not
  permanent and the queue is not shutting down, and forget the key otherwise.
\<close>

definition handleErr :: "error option \<Rightarrow> NamespacedName \<Rightarrow> Impl \<Rightarrow> Impl" where
  "handleErr err key c =
     (let c1 = logf ErrorLevel ''Reconcile error'' c in
      if \<not> IsPermanentError err \<and> \<not> ShuttingDown (WorkQueue c1) then
        logf DebugLevel ''Requeuing key %s due to non-permanent error (depth: %d)''
          (issue (AddRateLimited key) c1)
      else issue (Forget key) c1)"

text \<open>
  \<^verbatim>\<open>processNextWorkItem\<close> from the test of Reconcile's result to its return: the
  failure branch, the success branch, and the deferred \<^verbatim>\<open>Done(key)\<close>, which runs last
  on both.
\<close>

definition afterReconcile :: "error option \<Rightarrow> NamespacedName \<Rightarrow> Impl \<Rightarrow> Impl" where
  "afterReconcile err key c =
     issue (Done key)
       (if err \<noteq> None then
          logf InfoLevel ''Reconcile failed. Time taken: %v.'' (handleErr err key c)
        else
          logf InfoLevel ''Reconcile succeeded. Time taken: %v.'' (issue (Forget key) c))"

text \<open>
  What \<^verbatim>\<open>WorkQueue.Get()\<close> hands out is an \<^verbatim>\<open>interface{}\<close>; the type assertion
  \<^verbatim>\<open>obj.(types.NamespacedName)\<close> panics on anything else.
\<close>

datatype qitem = KeyItem NamespacedName | ForeignItem

datatype panic = InterfaceConversion

text \<open>
  \<^verbatim>\<open>processNextWorkItem\<close>. The arguments are the \<^verbatim>\<open>Reconcile\<close> method of the
  field \<^verbatim>\<open>Reconciler\<close>, acting on a state \<open>'r\<close> of its own, and the pair that
  \<^verbatim>\<open>Get()\<close> answers. The result is the controller, the reconciler's state and the
  returned boolean. (The trace identifier and the timing only reach the log.)
\<close>

definition processNextWorkItem ::
  "(string \<Rightarrow> 'r \<Rightarrow> error option \<times> 'r) \<Rightarrow> qitem \<times> bool \<Rightarrow> Impl \<Rightarrow> 'r \<Rightarrow> panic + (Impl \<times> 'r \<times> bool)" where
  "processNextWorkItem Reconcile got c r =
     (case got of (item, shutdown) \<Rightarrow>
        let c0 = issue Get c in
        if shutdown then Inr (c0, r, False)
        else
          (case item of
             ForeignItem \<Rightarrow> Inl InterfaceConversion
           | KeyItem key \<Rightarrow>
               let keyStr = safeKey key;
                   c1 = logf DebugLevel ''Processing from queue %s (depth: %d)'' c0;
                   (err, r') = Reconcile keyStr r
               in Inr (afterReconcile err key c1, r', True)))"

subsection \<open>Global resync\<close>

text \<open>
  A \<^verbatim>\<open>float64\<close> is the rational it denotes. An arithmetic operation or a conversion
  to \<^verbatim>\<open>float64\<close> yields the exact result rounded to the nearest number with a
  significand of 53 bits, ties to the even significand (the exponent range is not limited:
  the values here stay far from overflow and underflow). \<open>expo x\<close> is the exponent of a
  positive \<open>x\<close>, with \<open>2 powi expo x \<le> x < 2 powi (expo x + 1)\<close>; \<open>ulp x\<close> is the
  spacing of the \<^verbatim>\<open>float64\<close> numbers around \<open>x\<close>.
\<close>

definition expo :: "rat \<Rightarrow> int" where
  "expo x = (if 1 \<le> x then bitlen \<lfloor>x\<rfloor> - 1 else - bitlen (\<lceil>1 / x\<rceil> - 1))"

definition ulp :: "rat \<Rightarrow> rat" where
  "ulp x = 2 powi (expo x - 52)"

definition rne :: "rat \<Rightarrow> int" where
  "rne z =
     (let f = \<lfloor>z\<rfloor>; d = z - of_int f
      in if d < 1 / 2 then f else if 1 / 2 < d then f + 1 else if even f then f else f + 1)"

definition float64 :: "rat \<Rightarrow> rat" where
  "float64 x =
     (if x = 0 then 0
      else sgn x * (of_int (rne (\<bar>x\<bar> / ulp \<bar>x\<bar>)) * ulp \<bar>x\<bar>))"

text \<open>
  The conversion of a \<^verbatim>\<open>float64\<close> to \<^verbatim>\<open>int64\<close> truncates towards zero. For a
  value outside \<^verbatim>\<open>int64\<close> the Go specification leaves the result to the
  implementation; the model takes the minimum \<^verbatim>\<open>int64\<close>, which is what amd64 gives.
\<close>

definition toInt64 :: "rat \<Rightarrow> int" where
  "toInt64 x =
     (let t = (if 0 \<le> x then \<lfloor>x\<rfloor> else \<lceil>x\<rceil>)
      in if - (2 ^ 63) \<le> t \<and> t < 2 ^ 63 then t else - (2 ^ 63))"

text \<open>
  \<^verbatim>\<open>wait.Jitter\<close> of k8s.io/apimachinery (a dependency; its body is
  \<^verbatim>\<open>if maxFactor <= 0.0 { maxFactor = 1.0 };
  return duration + time.Duration(rand.Float64()*maxFactor*float64(duration))\<close>).
  The argument \<open>r\<close> is the value \<^verbatim>\<open>rand.Float64()\<close> returned. The product is
  evaluated from the left, each multiplication rounded; the sum is on \<^verbatim>\<open>int64\<close>.
\<close>

definition Jitter :: "Duration \<Rightarrow> rat \<Rightarrow> rat \<Rightarrow> Duration" where
  "Jitter duration maxFactor r =
     (let mf = (if maxFactor \<le> 0 then 1 else maxFactor)
      in duration +
         word_of_int (toInt64 (float64 (float64 (r * mf) * float64 (of_int (sint duration))))))"

text \<open>
  The loop of \<^verbatim>\<open>FilteredGlobalResync\<close>. \<open>rnd n\<close> is the value the \<open>n\<close>-th call
  of \<^verbatim>\<open>rand.Float64()\<close> returns, counted from the start of the resync.
\<close>

fun resyncLoop :: "(obj \<Rightarrow> bool) \<Rightarrow> rat \<Rightarrow> (nat \<Rightarrow> rat) \<Rightarrow> nat \<Rightarrow> obj list \<Rightarrow> Impl \<Rightarrow> Impl" where
  "resyncLoop f count rnd n [] c = c"
| "resyncLoop f count rnd n (ob # rest) c =
     (if f ob then resyncLoop f count rnd (Suc n) rest (EnqueueAfter ob (Jitter Second count (rnd n)) c)
      else resyncLoop f count rnd n rest c)"

text \<open>
  \<open>store\<close> is what \<^verbatim>\<open>si.GetStore().List()\<close> returns; \<open>count\<close> is
  \<^verbatim>\<open>float64(len(list))\<close>.
\<close>

definition FilteredGlobalResync :: "(obj \<Rightarrow> bool) \<Rightarrow> obj list \<Rightarrow> (nat \<Rightarrow> rat) \<Rightarrow> Impl \<Rightarrow> Impl" where
  "FilteredGlobalResync f store rnd c =
     (if ShuttingDown (WorkQueue c) then c
      else resyncLoop f (float64 (of_nat (length store))) rnd 0 store c)"

definition alwaysTrue :: "obj \<Rightarrow> bool" where
  "alwaysTrue ob = True"

definition GlobalResync :: "obj list \<Rightarrow> (nat \<Rightarrow> rat) \<Rightarrow> Impl \<Rightarrow> Impl" where
  "GlobalResync store rnd c = FilteredGlobalResync alwaysTrue store rnd c"

text \<open>
  The calls of \<^verbatim>\<open>EnqueueAfter\<close> that a resync over \<open>store\<close> makes, as pairs of
  arguments: one for each listed object that passes the filter, in the order of the list,
  the \<open>n\<close>-th with the jitter of the \<open>n\<close>-th random value.
\<close>

definition resyncCalls :: "(obj \<Rightarrow> bool) \<Rightarrow> obj list \<Rightarrow> (nat \<Rightarrow> rat) \<Rightarrow> (obj \<times> Duration) list" where
  "resyncCalls f store rnd =
     map (\<lambda>(n, ob). (ob, Jitter Second (float64 (of_nat (length store))) (rnd n)))
       (enumerate 0 (filter f store))"

subsection \<open>The informer barrier\<close>









subsection \<open>Context-scoped configuration\<close>

text \<open>
  A \<^verbatim>\<open>context.Context\<close> is the chain of values attached to it, the latest first.
  The key types \<^verbatim>\<open>resyncPeriodKey\<close> and \<^verbatim>\<open>erKey\<close> are unexported, so a value
  under the first is always the \<^verbatim>\<open>time.Duration\<close> that \<^verbatim>\<open>WithResyncPeriod\<close>
  stored, and one under the second an event recorder (named by a string here).
\<close>

datatype ctxValue =
    resyncPeriodValue Duration
  | eventRecorderValue string
  | foreignValue string string

type_synonym Context = "ctxValue list"

definition WithResyncPeriod :: "Context \<Rightarrow> Duration \<Rightarrow> Context" where
  "WithResyncPeriod ctx resync = resyncPeriodValue resync # ctx"

definition WithEventRecorder :: "Context \<Rightarrow> string \<Rightarrow> Context" where
  "WithEventRecorder ctx er = eventRecorderValue er # ctx"

text \<open>\<^verbatim>\<open>ctx.Value(resyncPeriodKey{})\<close>: the latest value under the key, or \<^verbatim>\<open>nil\<close>.\<close>

fun Value_resyncPeriodKey :: "Context \<Rightarrow> Duration option" where
  "Value_resyncPeriodKey [] = None"
| "Value_resyncPeriodKey (resyncPeriodValue d # ctx) = Some d"
| "Value_resyncPeriodKey (_ # ctx) = Value_resyncPeriodKey ctx"

definition GetResyncPeriod :: "Context \<Rightarrow> Duration" where
  "GetResyncPeriod ctx =
     (case Value_resyncPeriodKey ctx of None \<Rightarrow> DefaultResyncPeriod | Some rp \<Rightarrow> rp)"

definition GetTrackerLease :: "Context \<Rightarrow> Duration" where
  "GetTrackerLease ctx = 3 * GetResyncPeriod ctx"

subsection \<open>The work queue, and workers running against it\<close>

text \<open>
  Modelled from the spec: the work queue itself, which is client-go's
  \<^verbatim>\<open>workqueue\<close> and not among the sources. Section 4.1 of the spec gives its state
  (the sequence \<open>queue\<close>, the sets \<open>dirty\<close> and \<open>processing\<close>, a failure count for
  each key, the delayed entries) and its operations, which run one at a time:
  \<^item> \<open>Add\<close>: nothing if the key is dirty; else mark it dirty and, if it is not being
    processed, append it to the queue;
  \<^item> \<open>AddAfter\<close>: \<open>Add\<close> if the delay is not positive; else a delayed entry, which
    performs \<open>Add\<close> when its timer fires;
  \<^item> \<open>AddRateLimited\<close>: a delay computed from the failure count of the key, the count
    incremented, then \<open>AddAfter\<close>;
  \<^item> \<open>Get\<close>: pop the head of the queue, remove it from \<open>dirty\<close>, add it to
    \<open>processing\<close>;
  \<^item> \<open>Done\<close>: remove the key from \<open>processing\<close> and, if it is dirty, append it to the
    queue;
  \<^item> \<open>Forget\<close>: reset the failure count; \<open>ShutDown\<close>: mark the queue closed.
  The backoff formula is a parameter, as in the spec.
\<close>

record queueState =
  queue :: "NamespacedName list"
  dirty :: "NamespacedName set"
  processing :: "NamespacedName set"
  failures :: "NamespacedName \<Rightarrow> nat"
  timers :: "NamespacedName list"
  shutDown :: bool

definition q_Add :: "NamespacedName \<Rightarrow> queueState \<Rightarrow> queueState" where
  "q_Add k q =
     (if k \<in> dirty q then q
      else q\<lparr>dirty := insert k (dirty q),
             queue := (if k \<in> processing q then queue q else queue q @ [k])\<rparr>)"

definition q_AddAfter :: "NamespacedName \<Rightarrow> Duration \<Rightarrow> queueState \<Rightarrow> queueState" where
  "q_AddAfter k delay q = (if sint delay \<le> 0 then q_Add k q else q\<lparr>timers := timers q @ [k]\<rparr>)"

definition q_fire :: "nat \<Rightarrow> queueState \<Rightarrow> queueState" where
  "q_fire i q = q_Add (timers q ! i) (q\<lparr>timers := take i (timers q) @ drop (Suc i) (timers q)\<rparr>)"

definition q_AddRateLimited :: "(nat \<Rightarrow> Duration) \<Rightarrow> NamespacedName \<Rightarrow> queueState \<Rightarrow> queueState" where
  "q_AddRateLimited backoff k q =
     q_AddAfter k (backoff (failures q k)) (q\<lparr>failures := (failures q)(k := Suc (failures q k))\<rparr>)"

definition q_Get :: "queueState \<Rightarrow> (NamespacedName \<times> queueState) option" where
  "q_Get q =
     (case queue q of
        [] \<Rightarrow> None
      | k # rest \<Rightarrow>
          Some (k, q\<lparr>queue := rest, dirty := dirty q - {k}, processing := insert k (processing q)\<rparr>))"

definition q_Done :: "NamespacedName \<Rightarrow> queueState \<Rightarrow> queueState" where
  "q_Done k q =
     q\<lparr>processing := processing q - {k},
       queue := (if k \<in> dirty q then queue q @ [k] else queue q)\<rparr>"

definition q_Forget :: "NamespacedName \<Rightarrow> queueState \<Rightarrow> queueState" where
  "q_Forget k q = q\<lparr>failures := (failures q)(k := 0)\<rparr>"

definition q_ShutDown :: "queueState \<Rightarrow> queueState" where
  "q_ShutDown q = q\<lparr>shutDown := True\<rparr>"

text \<open>A request of the controller, performed on the queue. (\<open>Get\<close> is a step of its own below.)\<close>

fun perform :: "(nat \<Rightarrow> Duration) \<Rightarrow> qcall \<Rightarrow> queueState \<Rightarrow> queueState" where
  "perform backoff (Add k) q = q_Add k q"
| "perform backoff (AddAfter k d) q = q_AddAfter k d q"
| "perform backoff (AddRateLimited k) q = q_AddRateLimited backoff k q"
| "perform backoff (Forget k) q = q_Forget k q"
| "perform backoff (Done k) q = q_Done k q"
| "perform backoff Get q = (case q_Get q of None \<Rightarrow> q | Some (k, q') \<Rightarrow> q')"

text \<open>
  A worker of \<^verbatim>\<open>Run\<close> loops on \<^verbatim>\<open>processNextWorkItem\<close>. It is idle (about to call
  \<open>Get\<close>), or inside \<open>Reconcile\<close> for the key it got, or past \<open>Reconcile\<close> with the
  rest of its requests still to issue, or gone after \<open>Get\<close> reported the shutdown. The
  requests that remain once \<open>Reconcile\<close> has returned \<open>err\<close> are those of
  \<open>afterReconcile\<close>, with \<^verbatim>\<open>ShuttingDown()\<close> read at that moment.
\<close>

datatype worker = Idle | Reconciling NamespacedName | Finishing NamespacedName "qcall list" | Exited

definition remaining :: "error option \<Rightarrow> NamespacedName \<Rightarrow> bool \<Rightarrow> qcall list" where
  "remaining err key shutting =
     requests (WorkQueue (afterReconcile err key
       \<lparr>WorkQueue = \<lparr>requests = [], ShuttingDown = shutting\<rparr>, logger = []\<rparr>))"

record system =
  wq :: queueState
  workers :: "nat \<Rightarrow> worker"

text \<open>
  One step of the system: a producer (an event handler or a resync) adds a key, at once or
  after a delay; a timer fires; \<^verbatim>\<open>Run\<close> shuts the queue down; a worker gets a key,
  leaves, comes back from \<open>Reconcile\<close> with any result, or issues its next request.
  Any number of producers and workers take such steps in any order.
\<close>

inductive step :: "(nat \<Rightarrow> Duration) \<Rightarrow> system \<Rightarrow> system \<Rightarrow> bool" for backoff where
  produce: "step backoff s (s\<lparr>wq := q_Add k (wq s)\<rparr>)"
| produceAfter: "step backoff s (s\<lparr>wq := q_AddAfter k d (wq s)\<rparr>)"
| fire: "i < length (timers (wq s)) \<Longrightarrow> step backoff s (s\<lparr>wq := q_fire i (wq s)\<rparr>)"
| shut: "step backoff s (s\<lparr>wq := q_ShutDown (wq s)\<rparr>)"
| get: "workers s w = Idle \<Longrightarrow> q_Get (wq s) = Some (k, q') \<Longrightarrow>
        step backoff s (s\<lparr>wq := q', workers := (workers s)(w := Reconciling k)\<rparr>)"
| leave: "workers s w = Idle \<Longrightarrow> queue (wq s) = [] \<Longrightarrow> shutDown (wq s) \<Longrightarrow>
        step backoff s (s\<lparr>workers := (workers s)(w := Exited)\<rparr>)"
| return: "workers s w = Reconciling k \<Longrightarrow>
        step backoff s
          (s\<lparr>workers := (workers s)(w := Finishing k (remaining err k (shutDown (wq s))))\<rparr>)"
| request: "workers s w = Finishing k (call # calls) \<Longrightarrow>
        step backoff s
          (s\<lparr>wq := perform backoff call (wq s),
             workers := (workers s)(w := (if calls = [] then Idle else Finishing k calls))\<rparr>)"

definition initial :: system where
  "initial =
     \<lparr>wq = \<lparr>queue = [], dirty = {}, processing = {}, failures = (\<lambda>k. 0), timers = [],
            shutDown = False\<rparr>,
      workers = (\<lambda>w. Idle)\<rparr>"

inductive reachable :: "(nat \<Rightarrow> Duration) \<Rightarrow> system \<Rightarrow> bool" for backoff where
  at_start: "reachable backoff initial"
| after_step: "reachable backoff s \<Longrightarrow> step backoff s s' \<Longrightarrow> reachable backoff s'"

text \<open>A worker holds a key from its \<open>Get\<close> to its \<open>Done\<close>.\<close>

fun holds :: "worker \<Rightarrow> NamespacedName \<Rightarrow> bool" where
  "holds (Reconciling k') k = (k' = k)"
| "holds (Finishing k' calls) k = (k' = k)"
| "holds _ k = False"

text \<open>
  The requests a worker can still have to issue once \<open>Reconcile\<close> has returned, and the
  invariant of the system: the queue has no duplicates; a key is queued exactly when it is
  dirty and not being processed (the invariant the spec states); the keys being processed
  are the keys that workers hold; no key is held by two workers.
\<close>

definition finishing :: "NamespacedName \<Rightarrow> qcall list \<Rightarrow> bool" where
  "finishing k calls \<longleftrightarrow>
     calls = [Done k] \<or> calls = [AddRateLimited k, Done k] \<or> calls = [Forget k, Done k]"

definition queue_inv :: "system \<Rightarrow> bool" where
  "queue_inv s \<longleftrightarrow>
     distinct (queue (wq s))
     \<and> (\<forall>k. k \<in> set (queue (wq s)) \<longleftrightarrow> k \<in> dirty (wq s) \<and> k \<notin> processing (wq s))
     \<and> (\<forall>k. k \<in> processing (wq s) \<longleftrightarrow> (\<exists>w. holds (workers s w) k))
     \<and> (\<forall>w w' k. holds (workers s w) k \<and> holds (workers s w') k \<longrightarrow> w = w')
     \<and> (\<forall>w k calls. workers s w = Finishing k calls \<longrightarrow> finishing k calls)"

subsection \<open>Sample inputs\<close>

text \<open>Concrete values on which the properties below are evaluated.\<close>

definition sampleKey :: NamespacedName where
  "sampleKey = \<lparr>Namespace = ''ns'', Name = ''a''\<rparr>"

definition sampleObject :: Object where
  "sampleObject =
     \<lparr>GetNamespace = ''ns'', GetName = ''a'', GetLabels = Map.empty, GetOwnerReferences = []\<rparr>"

definition ownedObject :: Object where
  "ownedObject =
     \<lparr>GetNamespace = ''ns'', GetName = ''pod-1'',
      GetLabels = [''parent'' \<mapsto> ''volume-1''],
      GetOwnerReferences =
        [\<lparr>APIVersion = ''v1'', Kind = ''Node'', ownerName = ''watcher'', Controller = None\<rparr>,
         \<lparr>APIVersion = ''local/v1alpha1'', Kind = ''LocalVolume'', ownerName = ''volume-1'',
          Controller = Some True\<rparr>]\<rparr>"

definition emptyImpl :: Impl where
  "emptyImpl = \<lparr>WorkQueue = \<lparr>requests = [], ShuttingDown = False\<rparr>, logger = []\<rparr>"

definition stoppingImpl :: Impl where
  "stoppingImpl = \<lparr>WorkQueue = \<lparr>requests = [], ShuttingDown = True\<rparr>, logger = []\<rparr>"

text \<open>A random source that returns the same value at every call.\<close>

definition constSource :: "rat \<Rightarrow> nat \<Rightarrow> rat" where
  "constSource r n = r"


text \<open>
  The system after a producer has added \<open>sampleKey\<close>, worker 0 has got it and is inside
  \<open>Reconcile\<close>, and a producer has added it again.
\<close>

definition sampleRun :: system where
  "sampleRun =
     \<lparr>wq = \<lparr>queue = [], dirty = {sampleKey}, processing = {sampleKey}, failures = (\<lambda>k. 0),
            timers = [], shutDown = False\<rparr>,
      workers = (\<lambda>w. Idle)(0 := Reconciling sampleKey)\<rparr>"

text \<open>A backoff that doubles from five milliseconds.\<close>

definition sampleBackoff :: "nat \<Rightarrow> Duration" where
  "sampleBackoff n = 5000000 * 2 ^ n"

text \<open>A reconciler that records the key strings it is given and returns a fixed result.\<close>

definition recordingReconciler :: "error option \<Rightarrow> string \<Rightarrow> string list \<Rightarrow> error option \<times> string list" where
  "recordingReconciler result key seen = (result, seen @ [key])"

section \<open>Properties\<close>

subsection \<open>C2: the error classifier\<close>

lemma IsPermanentError_iff: "IsPermanentError err \<longleftrightarrow> (\<exists>e. err = Some (permanentError e))"
  by (cases err rule: IsPermanentError.cases) simp_all

text \<open>
  C2. \<open>IsPermanentError\<close> answers true exactly for the values that \<open>NewPermanentError\<close>
  builds. The text of the error plays no part: wrapping an error keeps its text and makes
  it permanent, while an error of any other type with the very same text, and
  \<^verbatim>\<open>nil\<close>, are transient.
\<close>

theorem IsPermanentError_structural:
  "(IsPermanentError err \<longleftrightarrow> (\<exists>e. err = NewPermanentError e))
   \<and> \<not> IsPermanentError (Some (otherError msg))
   \<and> \<not> IsPermanentError None
   \<and> IsPermanentError (NewPermanentError (Some e'))
   \<and> Error (permanentError (Some e')) = Error e'
   \<and> \<not> IsPermanentError (Some (otherError (Error (permanentError (Some e')))))"
  by (simp add: IsPermanentError_iff NewPermanentError_def)

theorem IsPermanentError_structural_witness:
  "IsPermanentError (NewPermanentError (Some (otherError ''not found'')))
   \<and> Error (permanentError (Some (otherError ''not found''))) = ''not found''
   \<and> \<not> IsPermanentError (Some (otherError ''not found''))"
  using IsPermanentError_structural
    [of "NewPermanentError (Some (otherError ''not found''))" "''not found''" "otherError ''not found''"]
  by (simp add: NewPermanentError_def)

subsection \<open>Requests and log entries\<close>

lemma requests_issue [simp]: "requests (WorkQueue (issue call c)) = requests (WorkQueue c) @ [call]"
  by (simp add: issue_def)

lemma requests_logf [simp]: "requests (WorkQueue (logf lvl msg c)) = requests (WorkQueue c)"
  by (simp add: logf_def)

lemma ShuttingDown_issue [simp]: "ShuttingDown (WorkQueue (issue call c)) = ShuttingDown (WorkQueue c)"
  by (simp add: issue_def)

lemma ShuttingDown_logf [simp]: "ShuttingDown (WorkQueue (logf lvl msg c)) = ShuttingDown (WorkQueue c)"
  by (simp add: logf_def)

lemma logger_issue [simp]: "logger (issue call c) = logger c"
  by (simp add: issue_def)

lemma logger_logf [simp]: "logger (logf lvl msg c) = logger c @ [(lvl, msg)]"
  by (simp add: logf_def)

lemma requests_handleErr:
  "requests (WorkQueue (handleErr err key c)) =
     requests (WorkQueue c) @
       [if \<not> IsPermanentError err \<and> \<not> ShuttingDown (WorkQueue c) then AddRateLimited key
        else Forget key]"
  by (simp add: handleErr_def Let_def)

lemma requests_afterReconcile:
  "requests (WorkQueue (afterReconcile err key c)) =
     requests (WorkQueue c) @
       [if err = None then Forget key
        else if \<not> IsPermanentError err \<and> \<not> ShuttingDown (WorkQueue c) then AddRateLimited key
        else Forget key, Done key]"
  by (simp add: afterReconcile_def requests_handleErr)

subsection \<open>C1: what the worker does with a failed reconciliation\<close>

text \<open>
  C1. When \<open>Reconcile\<close> returns a non-nil error \<open>e\<close> for a key, \<open>handleErr\<close> issues
  exactly one request: \<open>AddRateLimited key\<close> if \<open>e\<close> is not permanent and the queue is
  not shutting down, and \<open>Forget key\<close> in every other case; the error is logged at error
  severity. The whole of \<open>processNextWorkItem\<close> then issues \<open>Get\<close>, that request and
  \<open>Done key\<close>, so a request that puts a key back is among them exactly when the error is
  transient and the queue is not shutting down.
\<close>

theorem handleErr_requeue:
  assumes "Reconcile (safeKey key) r = (Some e, r')"
  shows "issued c (handleErr (Some e) key c) =
           [if \<not> IsPermanentError (Some e) \<and> \<not> ShuttingDown (WorkQueue c)
            then AddRateLimited key else Forget key]
         \<and> (ErrorLevel, ''Reconcile error'') \<in> set (logger (handleErr (Some e) key c))
         \<and> (\<exists>c'. processNextWorkItem Reconcile (KeyItem key, False) c r = Inr (c', r', True)
               \<and> issued c c' =
                   [Get,
                    if \<not> IsPermanentError (Some e) \<and> \<not> ShuttingDown (WorkQueue c)
                    then AddRateLimited key else Forget key,
                    Done key]
               \<and> ((\<exists>q \<in> set (issued c c'). requeues q) \<longleftrightarrow>
                     \<not> IsPermanentError (Some e) \<and> \<not> ShuttingDown (WorkQueue c))
               \<and> (IsPermanentError (Some e) \<or> ShuttingDown (WorkQueue c) \<longrightarrow>
                     Forget key \<in> set (issued c c')))"
  using assms
  by (simp add: issued_def requests_handleErr processNextWorkItem_def requests_afterReconcile
        handleErr_def Let_def)

theorem handleErr_requeue_witness:
  "issued emptyImpl (handleErr (Some (otherError ''timeout'')) sampleKey emptyImpl)
     = [AddRateLimited sampleKey]
   \<and> issued stoppingImpl (handleErr (Some (otherError ''timeout'')) sampleKey stoppingImpl)
     = [Forget sampleKey]
   \<and> issued emptyImpl
        (handleErr (Some (permanentError (Some (otherError ''bad spec'')))) sampleKey emptyImpl)
     = [Forget sampleKey]
   \<and> (\<exists>c'. processNextWorkItem (recordingReconciler (Some (otherError ''timeout'')))
              (KeyItem sampleKey, False) emptyImpl [] = Inr (c', [''ns/a''], True)
         \<and> issued emptyImpl c' = [Get, AddRateLimited sampleKey, Done sampleKey])
   \<and> (\<exists>c'. processNextWorkItem
              (recordingReconciler (Some (permanentError (Some (otherError ''bad spec'')))))
              (KeyItem sampleKey, False) emptyImpl [] = Inr (c', [''ns/a''], True)
         \<and> issued emptyImpl c' = [Get, Forget sampleKey, Done sampleKey])"
proof -
  have transient:
    "recordingReconciler (Some (otherError ''timeout'')) (safeKey sampleKey) []
       = (Some (otherError ''timeout''), [''ns/a''])"
    by (simp add: recordingReconciler_def safeKey_def NamespacedName_String_def sampleKey_def)
  have permanent:
    "recordingReconciler (Some (permanentError (Some (otherError ''bad spec'')))) (safeKey sampleKey) []
       = (Some (permanentError (Some (otherError ''bad spec''))), [''ns/a''])"
    by (simp add: recordingReconciler_def safeKey_def NamespacedName_String_def sampleKey_def)
  have running: "\<not> ShuttingDown (WorkQueue emptyImpl)"
    by (simp add: emptyImpl_def)
  have stopping: "ShuttingDown (WorkQueue stoppingImpl)"
    by (simp add: stoppingImpl_def)
  show ?thesis
    using
      handleErr_requeue [of "recordingReconciler (Some (otherError ''timeout''))" sampleKey "[]"
        "otherError ''timeout''" "[''ns/a'']" emptyImpl, OF transient]
      handleErr_requeue [of "recordingReconciler (Some (otherError ''timeout''))" sampleKey "[]"
        "otherError ''timeout''" "[''ns/a'']" stoppingImpl, OF transient]
      handleErr_requeue [of "recordingReconciler (Some (permanentError (Some (otherError ''bad spec''))))"
        sampleKey "[]" "permanentError (Some (otherError ''bad spec''))" "[''ns/a'']" emptyImpl,
        OF permanent]
      running stopping
    by auto
qed

subsection \<open>C7: the key string handed to the reconciler\<close>

text \<open>
  C7. \<open>safeKey\<close> is \<open>namespace/name\<close> for a key with a namespace and the bare name for
  a key without one, and \<open>processNextWorkItem\<close> hands exactly that string to
  \<open>Reconcile\<close>: the reconciler's state afterwards is the one \<open>Reconcile\<close> produces on it.
\<close>

theorem Reconcile_key_string:
  "safeKey key = (if Namespace key = [] then Name key else Namespace key @ ''/'' @ Name key)
   \<and> (\<exists>c'. processNextWorkItem Reconcile (KeyItem key, False) c r =
         Inr (c', snd (Reconcile (if Namespace key = [] then Name key
                                   else Namespace key @ ''/'' @ Name key) r), True))"
  by (simp add: safeKey_def NamespacedName_String_def processNextWorkItem_def Let_def
        split: prod.splits)

theorem Reconcile_key_string_witness:
  "safeKey \<lparr>Namespace = ''ns'', Name = ''a''\<rparr> = ''ns/a''
   \<and> safeKey \<lparr>Namespace = [], Name = ''a''\<rparr> = ''a''
   \<and> (\<exists>c'. processNextWorkItem (recordingReconciler None)
              (KeyItem \<lparr>Namespace = ''ns'', Name = ''a''\<rparr>, False) emptyImpl [] =
            Inr (c', [''ns/a''], True))
   \<and> (\<exists>c'. processNextWorkItem (recordingReconciler None)
              (KeyItem \<lparr>Namespace = [], Name = ''a''\<rparr>, False) emptyImpl [] =
            Inr (c', [''a''], True))"
  using
    Reconcile_key_string [of "\<lparr>Namespace = ''ns'', Name = ''a''\<rparr>" "recordingReconciler None"
      emptyImpl "[]"]
    Reconcile_key_string [of "\<lparr>Namespace = [], Name = ''a''\<rparr>" "recordingReconciler None"
      emptyImpl "[]"]
  by (simp add: recordingReconciler_def)

subsection \<open>C6: propagation to the controlling owner\<close>

lemma GetControllerOf_None_iff:
  "GetControllerOf object = None \<longleftrightarrow>
     (\<forall>ref \<in> set (GetOwnerReferences object). Controller ref \<noteq> Some True)"
  by (auto simp add: GetControllerOf_def find_None_iff)

text \<open>
  C6. For an object that resolves through the accessor, \<open>EnqueueControllerOf\<close> issues
  the single request \<open>Add\<close> of the key made of the object's namespace and the owner's name
  when the object has a controlling owner reference, and leaves the controller as it was
  when none of its owner references is a controller.
\<close>

theorem EnqueueControllerOf_owner:
  assumes "DeletionHandlingAccessor ob = Inr object"
  shows "issued c (EnqueueControllerOf ob c) =
           (case GetControllerOf object of
              Some owner \<Rightarrow> [Add \<lparr>Namespace = GetNamespace object, Name = ownerName owner\<rparr>]
            | None \<Rightarrow> [])
         \<and> (GetControllerOf object = None \<longrightarrow> EnqueueControllerOf ob c = c)
         \<and> (GetControllerOf object = None \<longleftrightarrow>
              (\<forall>ref \<in> set (GetOwnerReferences object). Controller ref \<noteq> Some True))"
  using assms
  by (simp add: issued_def EnqueueControllerOf_def EnqueueKey_def GetControllerOf_None_iff
        split: option.splits)

theorem EnqueueControllerOf_owner_witness:
  "issued emptyImpl (EnqueueControllerOf (Accessor ownedObject) emptyImpl)
     = [Add \<lparr>Namespace = ''ns'', Name = ''volume-1''\<rparr>]
   \<and> issued emptyImpl
       (EnqueueControllerOf (DeletedFinalStateUnknown ''ns/pod-1'' (Accessor ownedObject)) emptyImpl)
     = [Add \<lparr>Namespace = ''ns'', Name = ''volume-1''\<rparr>]
   \<and> EnqueueControllerOf (Accessor sampleObject) emptyImpl = emptyImpl"
  using
    EnqueueControllerOf_owner [of "Accessor ownedObject" ownedObject emptyImpl]
    EnqueueControllerOf_owner [of "DeletedFinalStateUnknown ''ns/pod-1'' (Accessor ownedObject)"
      ownedObject emptyImpl]
    EnqueueControllerOf_owner [of "Accessor sampleObject" sampleObject emptyImpl]
  by (simp add: GetControllerOf_def ownedObject_def sampleObject_def)

subsection \<open>C10: the label handler without a namespace label\<close>

text \<open>
  C10. Called with the empty string as namespace label, the handler of
  \<open>EnqueueLabelOfNamespaceScopedResource\<close> enqueues, for an object that carries the name
  label, the key made of the object's own namespace and the value of the name label.
\<close>

theorem EnqueueLabel_empty_namespaceLabel:
  assumes "DeletionHandlingAccessor ob = Inr object" and "GetLabels object nameLabel = Some v"
  shows "issued c (EnqueueLabelOfNamespaceScopedResource [] nameLabel ob c) =
           [Add \<lparr>Namespace = GetNamespace object, Name = v\<rparr>]"
  using assms
  by (simp add: issued_def EnqueueLabelOfNamespaceScopedResource_def EnqueueKey_def)

theorem EnqueueLabel_empty_namespaceLabel_witness:
  "issued emptyImpl
     (EnqueueLabelOfNamespaceScopedResource [] ''parent'' (Accessor ownedObject) emptyImpl)
   = [Add \<lparr>Namespace = ''ns'', Name = ''volume-1''\<rparr>]"
  using EnqueueLabel_empty_namespaceLabel [of "Accessor ownedObject" ownedObject "''parent''"
      "''volume-1''" emptyImpl]
  by (simp add: ownedObject_def)

subsection \<open>C4: one call of EnqueueAfter for each object that passes the filter\<close>

lemma resyncLoop_foldl:
  "resyncLoop f count rnd n store c =
     foldl (\<lambda>c (ob, d). EnqueueAfter ob d c) c
       (map (\<lambda>(n, ob). (ob, Jitter Second count (rnd n))) (enumerate n (filter f store)))"
  by (induction store arbitrary: n c) simp_all

lemma FilteredGlobalResync_foldl:
  "\<not> ShuttingDown (WorkQueue c) \<Longrightarrow>
     FilteredGlobalResync f store rnd c =
       foldl (\<lambda>c (ob, d). EnqueueAfter ob d c) c (resyncCalls f store rnd)"
  by (simp add: FilteredGlobalResync_def resyncLoop_foldl resyncCalls_def)

lemma map_fst_resyncCalls: "map fst (resyncCalls f store rnd) = filter f store"
  by (simp add: resyncCalls_def case_prod_unfold comp_def)

lemma length_resyncCalls: "length (resyncCalls f store rnd) = length (filter f store)"
  by (simp add: resyncCalls_def)

lemma filter_alwaysTrue: "filter alwaysTrue store = store"
  by (simp add: alwaysTrue_def)

text \<open>
  C4. When the queue is not shutting down, \<open>FilteredGlobalResync f\<close> is the sequence of
  the calls of \<open>EnqueueAfter\<close> listed by \<open>resyncCalls\<close>: one call for each listed object
  that satisfies \<open>f\<close>, in the order of the list, and so as many calls as the store has
  objects for \<open>GlobalResync\<close>. When the queue is shutting down, both return the
  controller unchanged.
\<close>

theorem FilteredGlobalResync_calls:
  "(\<not> ShuttingDown (WorkQueue c) \<longrightarrow>
      FilteredGlobalResync f store rnd c =
        foldl (\<lambda>c (ob, d). EnqueueAfter ob d c) c (resyncCalls f store rnd)
      \<and> GlobalResync store rnd c =
        foldl (\<lambda>c (ob, d). EnqueueAfter ob d c) c (resyncCalls alwaysTrue store rnd))
   \<and> map fst (resyncCalls f store rnd) = filter f store
   \<and> length (resyncCalls f store rnd) = length (filter f store)
   \<and> length (resyncCalls alwaysTrue store rnd) = length store
   \<and> (ShuttingDown (WorkQueue c) \<longrightarrow>
        FilteredGlobalResync f store rnd c = c \<and> GlobalResync store rnd c = c)"
  by (simp add: FilteredGlobalResync_foldl GlobalResync_def map_fst_resyncCalls
        length_resyncCalls filter_alwaysTrue)
    (simp add: FilteredGlobalResync_def)

theorem FilteredGlobalResync_calls_witness:
  "issued emptyImpl
     (FilteredGlobalResync (\<lambda>ob. ob \<noteq> NotAnObject)
        [Accessor sampleObject, NotAnObject, Accessor ownedObject] (constSource 0) emptyImpl)
     = [AddAfter \<lparr>Namespace = ''ns'', Name = ''a''\<rparr> Second,
        AddAfter \<lparr>Namespace = ''ns'', Name = ''pod-1''\<rparr> Second]
   \<and> length (resyncCalls alwaysTrue [Accessor sampleObject, NotAnObject, Accessor ownedObject]
        (constSource 0)) = 3
   \<and> GlobalResync [Accessor sampleObject, NotAnObject, Accessor ownedObject] (constSource 0)
        stoppingImpl = stoppingImpl"
proof -
  have running: "\<not> ShuttingDown (WorkQueue emptyImpl)"
    by (simp add: emptyImpl_def)
  have stopping: "ShuttingDown (WorkQueue stoppingImpl)"
    by (simp add: stoppingImpl_def)
  have calls:
    "resyncCalls (\<lambda>ob. ob \<noteq> NotAnObject)
        [Accessor sampleObject, NotAnObject, Accessor ownedObject] (constSource 0)
       = [(Accessor sampleObject, Second), (Accessor ownedObject, Second)]"
    by (simp add: resyncCalls_def constSource_def Jitter_def toInt64_def float64_def)
  have effect:
    "issued emptyImpl
       (foldl (\<lambda>c (ob, d). EnqueueAfter ob d c) emptyImpl
          [(Accessor sampleObject, Second), (Accessor ownedObject, Second)])
       = [AddAfter \<lparr>Namespace = ''ns'', Name = ''a''\<rparr> Second,
          AddAfter \<lparr>Namespace = ''ns'', Name = ''pod-1''\<rparr> Second]"
    by (simp add: issued_def EnqueueAfter_def EnqueueKeyAfter_def emptyImpl_def sampleObject_def
          ownedObject_def)
  show ?thesis
    using
      FilteredGlobalResync_calls [of emptyImpl "\<lambda>ob. ob \<noteq> NotAnObject"
        "[Accessor sampleObject, NotAnObject, Accessor ownedObject]" "constSource 0"]
      FilteredGlobalResync_calls [of stoppingImpl alwaysTrue
        "[Accessor sampleObject, NotAnObject, Accessor ownedObject]" "constSource 0"]
      running stopping calls effect
    by simp
qed

subsection \<open>Rounding to float64\<close>

lemma expo_bounds:
  assumes "0 < x"
  shows "2 powi expo x \<le> x \<and> x < 2 powi (expo x + 1)"
proof (cases "1 \<le> x")
  case True
  then have pos: "0 < \<lfloor>x\<rfloor>" by simp
  let ?b = "bitlen \<lfloor>x\<rfloor>"
  from bitlen_bounds [OF pos] have b: "2 ^ nat (?b - 1) \<le> \<lfloor>x\<rfloor>" "\<lfloor>x\<rfloor> < 2 ^ nat ?b" by simp_all
  have b1: "1 \<le> ?b" using pos bitlen_eq_zero_iff [of "\<lfloor>x\<rfloor>"] bitlen_nonneg [of "\<lfloor>x\<rfloor>"] by linarith
  have "(2::rat) powi (?b - 1) = 2 ^ nat (?b - 1)" using b1 by (simp add: power_int_def)
  also have "\<dots> = of_int (2 ^ nat (?b - 1))" by simp
  also have "\<dots> \<le> of_int \<lfloor>x\<rfloor>" using b(1) by (simp only: of_int_le_iff)
  also have "\<dots> \<le> x" by simp
  finally have lo: "2 powi (?b - 1) \<le> x" .
  have "\<lfloor>x\<rfloor> + 1 \<le> 2 ^ nat ?b" using b(2) by simp
  then have "of_int (\<lfloor>x\<rfloor> + 1) \<le> (of_int (2 ^ nat ?b) :: rat)" by (simp only: of_int_le_iff)
  moreover have "x < of_int (\<lfloor>x\<rfloor> + 1)" by linarith
  ultimately have "x < (2::rat) ^ nat ?b" by simp
  moreover have "(2::rat) powi ?b = 2 ^ nat ?b" using b1 by (simp add: power_int_def)
  ultimately have hi: "x < 2 powi (?b - 1 + 1)" by simp
  from True lo hi show ?thesis by (simp add: expo_def)
next
  case False
  with assms have x1: "x < 1" by simp
  let ?n = "\<lceil>1 / x\<rceil> - 1"
  have y: "1 < 1 / x" using assms x1 by simp
  then have pos: "0 < ?n" by linarith
  let ?b = "bitlen ?n"
  from bitlen_bounds [OF pos] have b: "2 ^ nat (?b - 1) \<le> ?n" "?n < 2 ^ nat ?b" by simp_all
  have b1: "1 \<le> ?b" using pos bitlen_eq_zero_iff [of ?n] bitlen_nonneg [of ?n] by linarith
  have n_lt: "of_int ?n < 1 / x" by linarith
  have "\<lceil>1 / x\<rceil> \<le> 2 ^ nat ?b" using b(2) by simp
  then have "(of_int \<lceil>1 / x\<rceil> :: rat) \<le> of_int (2 ^ nat ?b)" by (simp only: of_int_le_iff)
  then have "(of_int \<lceil>1 / x\<rceil> :: rat) \<le> 2 ^ nat ?b" by simp
  with le_of_int_ceiling [of "1 / x"] have "1 / x \<le> 2 ^ nat ?b" by linarith
  then have "1 \<le> 2 ^ nat ?b * x" using assms by (simp add: field_simps)
  then have "1 / 2 ^ nat ?b \<le> x" by (simp add: field_simps)
  moreover have "(2::rat) powi (- ?b) = 1 / 2 ^ nat ?b" using b1 by (simp add: power_int_def field_simps)
  ultimately have lo: "2 powi (- ?b) \<le> x" by simp
  have "(of_int (2 ^ nat (?b - 1)) :: rat) \<le> of_int ?n" using b(1) by (simp only: of_int_le_iff)
  with n_lt have "(2::rat) ^ nat (?b - 1) < 1 / x" by simp
  then have "2 ^ nat (?b - 1) * x < 1" using assms by (simp add: field_simps)
  then have "x < 1 / 2 ^ nat (?b - 1)" by (simp add: field_simps)
  moreover have "(2::rat) powi (- ?b + 1) = 1 / 2 ^ nat (?b - 1)"
    using b1 by (cases "?b = 1") (simp_all add: power_int_def field_simps)
  ultimately have hi: "x < 2 powi (- ?b + 1)" by simp
  from False lo hi show ?thesis by (simp add: expo_def)
qed


lemma expo_unique:
  assumes "0 < x" "2 powi a \<le> x" "x < 2 powi (a + 1)"
  shows "expo x = a"
proof -
  from expo_bounds [OF assms(1)] have e: "2 powi expo x \<le> x" "x < 2 powi (expo x + 1)" by simp_all
  have "(2::rat) powi a < 2 powi (expo x + 1)" using assms(2) e(2) by simp
  then have "a < expo x + 1"
    by (metis not_less one_less_numeral_iff semiring_norm(76) power_int_increasing less_imp_le)
  moreover have "(2::rat) powi expo x < 2 powi (a + 1)" using assms(3) e(1) by simp
  then have "expo x < a + 1"
    by (metis not_less one_less_numeral_iff semiring_norm(76) power_int_increasing less_imp_le)
  ultimately show ?thesis by simp
qed

lemma rne_near: "\<bar>of_int (rne z) - z\<bar> \<le> 1 / 2"
proof -
  have "of_int \<lfloor>z\<rfloor> \<le> z" "z < of_int \<lfloor>z\<rfloor> + 1" by linarith+
  then show ?thesis by (auto simp add: rne_def Let_def)
qed

lemma rne_of_int [simp]: "rne (of_int n) = n"
  by (simp add: rne_def)

lemma rne_le: "z \<le> of_int n \<Longrightarrow> rne z \<le> n"
proof -
  assume "z \<le> of_int n"
  with rne_near [of z] have "(of_int (rne z) :: rat) \<le> of_int n + 1 / 2" by linarith
  then have "(of_int (rne z) :: rat) < of_int (n + 1)" by simp
  then have "rne z < n + 1" by (simp only: of_int_less_iff)
  then show ?thesis by simp
qed

lemma rne_ge: "of_int n \<le> z \<Longrightarrow> n \<le> rne z"
proof -
  assume "of_int n \<le> z"
  with rne_near [of z] have "(of_int n :: rat) - 1 / 2 \<le> of_int (rne z)" by linarith
  then have "(of_int (n - 1) :: rat) < of_int (rne z)" by simp
  then have "n - 1 < rne z" by (simp only: of_int_less_iff)
  then show ?thesis by simp
qed


lemma ulp_pos: "0 < ulp x"
  by (simp add: ulp_def)

lemma ulp_times: "ulp x * 2 ^ 52 = 2 powi expo x"
proof -
  have "(2::rat) powi expo x = 2 powi ((expo x - 52) + 52)" by simp
  also have "\<dots> = 2 powi (expo x - 52) * 2 powi 52" by (rule power_int_add) simp
  finally show ?thesis by (simp add: ulp_def)
qed

lemma float64_pos: "0 < x \<Longrightarrow> float64 x = of_int (rne (x / ulp x)) * ulp x"
  by (simp add: float64_def ulp_def Let_def)

lemma mantissa_bounds:
  assumes "0 < x"
  shows "2 ^ 52 \<le> x / ulp x \<and> x / ulp x < 2 ^ 53"
proof -
  from expo_bounds [OF assms] have e: "2 powi expo x \<le> x" "x < 2 powi (expo x + 1)" by simp_all
  have "(2::rat) powi (expo x + 1) = 2 powi expo x * 2" by (rule power_int_add_1) simp
  with e(2) ulp_times [of x] have "x < ulp x * 2 ^ 53" by simp
  moreover from e(1) ulp_times [of x] have "ulp x * 2 ^ 52 \<le> x" by simp
  ultimately show ?thesis using ulp_pos [of x] by (simp add: field_simps)
qed

lemma mantissa_int_bounds:
  assumes "0 < x"
  shows "2 ^ 52 \<le> rne (x / ulp x) \<and> rne (x / ulp x) \<le> 2 ^ 53"
proof -
  from mantissa_bounds [OF assms] have "of_int (2 ^ 52) \<le> x / ulp x" "x / ulp x \<le> of_int (2 ^ 53)"
    by simp_all
  then show ?thesis using rne_ge rne_le by blast
qed

lemma float64_positive: "0 < x \<Longrightarrow> 0 < float64 x"
  using mantissa_int_bounds [of x] ulp_pos [of x] by (simp add: float64_pos)

lemma float64_nonneg: "0 \<le> x \<Longrightarrow> 0 \<le> float64 x"
  using float64_positive [of x] by (cases "x = 0") (simp_all add: float64_def less_le)

lemma float64_upper:
  assumes "0 < x"
  shows "float64 x \<le> x * (1 + 1 / 2 ^ 53)"
proof -
  let ?u = "ulp x"
  from rne_near [of "x / ?u"] have "of_int (rne (x / ?u)) \<le> x / ?u + 1 / 2" by linarith
  then have "of_int (rne (x / ?u)) * ?u \<le> (x / ?u + 1 / 2) * ?u"
    using ulp_pos [of x] by (simp only: mult_le_cancel_right_pos)
  also have "\<dots> = x + ?u / 2" using ulp_pos [of x] by (simp add: field_simps)
  finally have a: "float64 x \<le> x + ?u / 2" using assms by (simp add: float64_pos)
  from expo_bounds [OF assms] ulp_times [of x] have "?u * 2 ^ 52 \<le> x" by simp
  then have "?u / 2 \<le> x / 2 ^ 53" by (simp add: field_simps)
  with a show ?thesis by (simp add: field_simps)
qed

lemma float64_exact:
  assumes "0 < x" and "x / ulp x = of_int m"
  shows "float64 x = x"
proof -
  have "float64 x = of_int (rne (of_int m)) * ulp x"
    using assms by (simp add: float64_pos)
  also have "\<dots> = (x / ulp x) * ulp x" using assms(2) by simp
  also have "\<dots> = x" using ulp_pos [of x] by simp
  finally show ?thesis .
qed

lemma float64_mantissa:
  assumes "0 < x" and "float64 x = x"
  shows "x = of_int (rne (x / ulp x)) * ulp x"
  using assms by (simp add: float64_pos)

lemma float64_quotient:
  assumes "0 < x" and "float64 x = x"
  shows "x / ulp x = of_int (rne (x / ulp x))"
proof -
  have "of_int (rne (x / ulp x)) * ulp x = x" using assms by (simp add: float64_pos)
  then show ?thesis using ulp_pos [of x] by (simp add: field_simps)
qed

lemma float64_idem:
  assumes "0 < x"
  shows "float64 (float64 x) = float64 x"
proof -
  let ?u = "ulp x"
  let ?m = "rne (x / ?u)"
  let ?y = "float64 x"
  have y: "?y = of_int ?m * ?u" using assms by (rule float64_pos)
  have ypos: "0 < ?y" using assms by (rule float64_positive)
  from mantissa_int_bounds [OF assms] have m: "2 ^ 52 \<le> ?m" "?m \<le> 2 ^ 53" by simp_all
  show ?thesis
  proof (cases "?m = 2 ^ 53")
    case True
    have "?y = 2 powi (expo x + 1)"
    proof -
      have "(2::rat) powi (expo x + 1) = 2 powi expo x * 2" by (rule power_int_add_1) simp
      then show ?thesis using y True ulp_times [of x] by simp
    qed
    then have ey: "expo ?y = expo x + 1"
      using ypos by (intro expo_unique) (simp_all add: power_int_strict_increasing)
    have "ulp ?y * 2 ^ 52 = ?y" using ulp_times [of ?y] ey \<open>?y = 2 powi (expo x + 1)\<close> by simp
    then have "?y / ulp ?y = of_int (2 ^ 52)" using ulp_pos [of ?y] by (simp add: field_simps)
    with ypos show ?thesis by (rule float64_exact)
  next
    case False
    with m have lt: "?m < 2 ^ 53" by simp
    have "(of_int (2 ^ 52) :: rat) \<le> of_int ?m" using m(1) by (simp only: of_int_le_iff)
    then have "2 ^ 52 * ?u \<le> ?y" using y ulp_pos [of x] by simp
    then have lo: "2 powi expo x \<le> ?y" using ulp_times [of x] by (simp add: mult.commute)
    have "(of_int ?m :: rat) < of_int (2 ^ 53)" using lt by (simp only: of_int_less_iff)
    then have "?y < 2 ^ 53 * ?u" using y ulp_pos [of x] by simp
    moreover have "(2::rat) powi (expo x + 1) = 2 powi expo x * 2" by (rule power_int_add_1) simp
    ultimately have hi: "?y < 2 powi (expo x + 1)" using ulp_times [of x] by (simp add: mult.commute)
    from ypos lo hi have "expo ?y = expo x" by (rule expo_unique)
    then have "ulp ?y = ?u" by (simp add: ulp_def)
    then have "?y / ulp ?y = of_int ?m" using y ulp_pos [of x] by simp
    with ypos show ?thesis by (rule float64_exact)
  qed
qed


lemma expo_mono:
  assumes "0 < x" "x \<le> y"
  shows "expo x \<le> expo y"
proof (rule ccontr)
  assume "\<not> expo x \<le> expo y"
  then have "expo y + 1 \<le> expo x" by simp
  then have "(2::rat) powi (expo y + 1) \<le> 2 powi expo x" by (intro power_int_increasing) simp_all
  moreover from assms have "0 < y" by simp
  ultimately show False
    using expo_bounds [OF assms(1)] expo_bounds [OF \<open>0 < y\<close>] assms(2) by simp
qed

lemma float64_gap:
  assumes pos: "0 < d'" and lt: "d' < d" and d: "float64 d = d" and d': "float64 d' = d'"
  shows "d' \<le> d * (1 - 1 / 2 ^ 53)"
proof -
  from pos lt have dpos: "0 < d" by simp
  let ?u = "ulp d" and ?u' = "ulp d'"
  let ?m = "rne (d / ?u)" and ?m' = "rne (d' / ?u')"
  have dm: "d = of_int ?m * ?u" using dpos d by (rule float64_mantissa)
  have dm': "d' = of_int ?m' * ?u'" using pos d' by (rule float64_mantissa)
  have up: "(2::rat) powi (expo d + 1) = ?u * 2 ^ 53" "(2::rat) powi (expo d' + 1) = ?u' * 2 ^ 53"
    using ulp_times [of d] ulp_times [of d'] power_int_add_1 [of "2::rat" "expo d"]
      power_int_add_1 [of "2::rat" "expo d'"] by simp_all
  from expo_mono [OF pos] lt have "expo d' \<le> expo d" by simp
  then consider (same) "expo d' = expo d" | (lower) "expo d' + 1 \<le> expo d" by linarith
  then show ?thesis
  proof cases
    case same
    then have u: "?u' = ?u" by (simp add: ulp_def)
    from lt dm dm' u have "of_int ?m' * ?u < of_int ?m * ?u" by simp
    then have "(of_int ?m' :: rat) < of_int ?m" using ulp_pos [of d] by simp
    then have "?m' < ?m" by (simp only: of_int_less_iff)
    then have "?m' + 1 \<le> ?m" by simp
    then have "(of_int (?m' + 1) :: rat) \<le> of_int ?m" by (simp only: of_int_le_iff)
    then have "of_int (?m' + 1) * ?u \<le> of_int ?m * ?u" using ulp_pos [of d] by simp
    then have "d' + ?u \<le> d" using dm dm' u by (simp add: algebra_simps)
    moreover from expo_bounds [OF dpos] up(1) have "d < ?u * 2 ^ 53" by simp
    then have "d / 2 ^ 53 < ?u" by (simp add: field_simps)
    ultimately show ?thesis by (simp add: algebra_simps)
  next
    case lower
    from mantissa_bounds [OF pos] have "d' / ?u' < 2 ^ 53" by simp
    with float64_quotient [OF pos d'] have "(of_int ?m' :: rat) < of_int (2 ^ 53)" by simp
    then have "?m' < 2 ^ 53" by (simp only: of_int_less_iff)
    then have "?m' \<le> 2 ^ 53 - 1" by simp
    then have "(of_int ?m' :: rat) \<le> of_int (2 ^ 53 - 1)" by (simp only: of_int_le_iff)
    then have "of_int ?m' * ?u' \<le> of_int (2 ^ 53 - 1) * ?u'" using ulp_pos [of d'] by simp
    then have "d' \<le> (2 ^ 53 - 1) * ?u'" using dm' by simp
    also have "\<dots> = 2 powi (expo d' + 1) * (1 - 1 / 2 ^ 53)" using up(2) by (simp add: algebra_simps)
    also have "\<dots> \<le> 2 powi expo d * (1 - 1 / 2 ^ 53)"
      using lower by (intro mult_right_mono power_int_increasing) simp_all
    also have "\<dots> \<le> d * (1 - 1 / 2 ^ 53)"
      using expo_bounds [OF dpos] by (intro mult_right_mono) simp_all
    finally show ?thesis .
  qed
qed

lemma float64_of_nat:
  assumes "n < 2 ^ 53"
  shows "float64 (of_nat n) = of_nat n"
proof (cases "n = 0")
  case True
  then show ?thesis by (simp add: float64_def)
next
  case False
  let ?x = "of_nat n :: rat"
  from False have pos: "0 < ?x" by simp
  from expo_bounds [OF pos] have e: "2 powi expo ?x \<le> ?x" "?x < 2 powi (expo ?x + 1)" by simp_all
  have "?x < 2 ^ 53" using assms by (metis of_nat_less_iff of_nat_numeral of_nat_power)
  with e(1) have "(2::rat) powi expo ?x < 2 powi 53" by simp
  then have "expo ?x < 53"
    by (metis not_less power_int_increasing one_le_numeral)
  then have k: "0 \<le> 52 - expo ?x" by simp
  have "ulp ?x * 2 powi (52 - expo ?x) = 2 powi ((expo ?x - 52) + (52 - expo ?x))"
    unfolding ulp_def by (rule power_int_add [symmetric]) simp
  then have "ulp ?x * 2 ^ nat (52 - expo ?x) = 1" using k by (simp add: power_int_def)
  then have "?x / ulp ?x = ?x * 2 ^ nat (52 - expo ?x)"
    using ulp_pos [of ?x] by (simp add: field_simps)
  also have "\<dots> = of_int (int n * 2 ^ nat (52 - expo ?x))" by simp
  finally show ?thesis using pos by (intro float64_exact)
qed


subsection \<open>C3: the delays of a resync\<close>

lemma resyncCalls_nonempty: "(ob, d) \<in> set (resyncCalls f store rnd) \<Longrightarrow> store \<noteq> []"
  by (auto simp add: resyncCalls_def)

lemma resyncCalls_delay:
  "(ob, d) \<in> set (resyncCalls f store rnd) \<Longrightarrow>
     \<exists>n. d = Jitter Second (float64 (of_nat (length store))) (rnd n)"
  by (auto simp add: resyncCalls_def)

lemma sint_Second: "sint Second = 1000000000"
  by (simp add: Second_def)

lemma float64_below_one:
  assumes "0 \<le> r" "r < 1" "float64 r = r"
  shows "r \<le> 1 - 1 / 2 ^ 53"
proof (cases "r = 0")
  case True
  then show ?thesis by simp
next
  case False
  with assms(1) have "0 < r" by simp
  moreover have "float64 1 = 1" using float64_of_nat [of 1] by simp
  ultimately show ?thesis using float64_gap [of r 1] assms(2,3) by simp
qed

lemma float64_product_below:
  assumes a: "0 \<le> a" "a \<le> M * (1 - 1 / 2 ^ 53)" and M: "0 < M"
  shows "0 \<le> float64 a \<and> float64 a < M"
proof (cases "a = 0")
  case True
  with M show ?thesis by (simp add: float64_def)
next
  case False
  with a(1) have pos: "0 < a" by simp
  have "float64 a \<le> a * (1 + 1 / 2 ^ 53)" using pos by (rule float64_upper)
  also have "\<dots> \<le> (M * (1 - 1 / 2 ^ 53)) * (1 + 1 / 2 ^ 53)"
    using a(2) by (intro mult_right_mono) simp_all
  also have "\<dots> = M * (1 - 1 / 2 ^ 106)" by (simp add: algebra_simps)
  also have "\<dots> < M" using M by simp
  finally show ?thesis using float64_nonneg [of a] a(1) by simp
qed

lemma Jitter_Second_bounds:
  assumes r: "0 \<le> r" "r < 1" "float64 r = r" and N: "0 < N"
    and fits: "(int N + 1) * 1000000000 < 2 ^ 63"
  shows "sint Second \<le> sint (Jitter Second (float64 (of_nat N)) r)
         \<and> sint (Jitter Second (float64 (of_nat N)) r) < (int N + 1) * sint Second"
proof -
  have small: "N < 2 ^ 53" using fits by simp
  have count: "float64 (of_nat N) = of_nat N" using small by (rule float64_of_nat)
  have second: "float64 (of_int (sint Second)) = 1000000000"
    using float64_of_nat [of 1000000000] by (simp add: sint_Second)
  let ?a = "float64 (r * of_nat N)"
  let ?b = "float64 (?a * 1000000000)"
  have rN: "0 \<le> r * of_nat N" "r * of_nat N \<le> of_nat N * (1 - 1 / 2 ^ 53)"
    using r(1) float64_below_one [OF r] N by (simp_all add: mult.commute)
  have Npos: "(0::rat) < of_nat N" using N by simp
  from float64_product_below [OF rN Npos] have a: "0 \<le> ?a" "?a < of_nat N" by simp_all
  have a_le: "?a \<le> of_nat N * (1 - 1 / 2 ^ 53)"
  proof (cases "?a = 0")
    case True
    then show ?thesis by simp
  next
    case False
    with a(1) have apos: "0 < ?a" by simp
    have "r * of_nat N \<noteq> 0"
    proof
      assume "r * of_nat N = 0"
      then have "?a = 0" by (simp add: float64_def)
      with False show False ..
    qed
    with rN(1) have "0 < r * of_nat N" by (simp only: less_le) simp
    then have "float64 ?a = ?a" by (rule float64_idem)
    with float64_gap [OF apos a(2) count] show ?thesis .
  qed
  have prod: "0 \<le> ?a * 1000000000"
    "?a * 1000000000 \<le> (of_nat N * 1000000000) * (1 - 1 / 2 ^ 53)"
    using a(1) a_le by simp_all
  have "(0::rat) < of_nat N * 1000000000" using N by simp
  from float64_product_below [OF prod this]
  have b: "0 \<le> ?b" "?b < of_nat N * 1000000000" by simp_all
  define t where "t = \<lfloor>?b\<rfloor>"
  have t0: "0 \<le> t" using b(1) by (simp add: t_def)
  have "?b < of_int (int N * 1000000000)" using b(2) by simp
  then have tN: "t < int N * 1000000000" unfolding t_def by (simp only: floor_less_iff)
  have range: "t < 2 ^ 63" "1000000000 + t < 2 ^ 63"
    using tN fits by (simp_all add: algebra_simps)
  have conv: "toInt64 ?b = t" using b(1) t0 range by (simp add: toInt64_def t_def)
  have mf: "(if (of_nat N :: rat) \<le> 0 then 1 else of_nat N) = of_nat N" using N by simp
  have J: "Jitter Second (float64 (of_nat N)) r = Second + word_of_int t"
    unfolding Jitter_def count Let_def mf second conv by (rule refl)
  have "sint (word_of_int t :: 64 word) = t"
    using t0 range by (simp add: sint_sbintrunc' signed_take_bit_int_eq_self)
  then have "sint (Second + word_of_int t) = 1000000000 + t"
    using t0 range by (simp add: sint_word_ariths sint_Second signed_take_bit_int_eq_self)
  with J t0 tN show ?thesis by (simp add: sint_Second algebra_simps)
qed

lemma requests_EnqueueAfter:
  "requests (WorkQueue (EnqueueAfter ob d c)) =
     requests (WorkQueue c) @
       (case DeletionHandlingAccessor ob of
          Inl err \<Rightarrow> []
        | Inr object \<Rightarrow> [AddAfter \<lparr>Namespace = GetNamespace object, Name = GetName object\<rparr> d])"
  by (simp add: EnqueueAfter_def EnqueueKeyAfter_def split: sum.splits)

lemma requests_foldl_EnqueueAfter:
  "requests (WorkQueue (foldl (\<lambda>c (ob, d). EnqueueAfter ob d c) c calls)) =
     requests (WorkQueue c) @
       concat (map (\<lambda>(ob, d).
         case DeletionHandlingAccessor ob of
           Inl err \<Rightarrow> []
         | Inr object \<Rightarrow> [AddAfter \<lparr>Namespace = GetNamespace object, Name = GetName object\<rparr> d])
         calls)"
  by (induction calls arbitrary: c) (simp_all add: requests_EnqueueAfter split: prod.splits)

lemma issued_foldl_EnqueueAfter:
  assumes "AddAfter k d \<in> set (issued c (foldl (\<lambda>c (ob, d). EnqueueAfter ob d c) c calls))"
  shows "\<exists>ob. (ob, d) \<in> set calls"
  using assms
  by (auto simp add: issued_def requests_foldl_EnqueueAfter split: sum.splits)

lemma issued_FilteredGlobalResync:
  assumes "AddAfter k d \<in> set (issued c (FilteredGlobalResync f store rnd c))"
  shows "\<exists>ob. (ob, d) \<in> set (resyncCalls f store rnd)"
proof (cases "ShuttingDown (WorkQueue c)")
  case True
  with assms show ?thesis by (simp add: FilteredGlobalResync_def issued_def)
next
  case False
  then have loop: "FilteredGlobalResync f store rnd c =
      foldl (\<lambda>c (ob, d). EnqueueAfter ob d c) c (resyncCalls f store rnd)"
    by (rule FilteredGlobalResync_foldl)
  from assms show ?thesis
    unfolding loop by (rule issued_foldl_EnqueueAfter)
qed

lemma resyncCalls_bounds:
  assumes "\<forall>n. 0 \<le> rnd n \<and> rnd n < 1 \<and> float64 (rnd n) = rnd n"
    and "(int (length store) + 1) * 1000000000 < 2 ^ 63"
    and "(ob, d) \<in> set (resyncCalls f store rnd)"
  shows "sint Second \<le> sint d \<and> sint d < (int (length store) + 1) * sint Second"
proof -
  from assms(3) have "store \<noteq> []" by (rule resyncCalls_nonempty)
  then have N: "0 < length store" by simp
  from assms(3) obtain n where d: "d = Jitter Second (float64 (of_nat (length store))) (rnd n)"
    using resyncCalls_delay by blast
  from assms(1) have "0 \<le> rnd n" "rnd n < 1" "float64 (rnd n) = rnd n" by simp_all
  from Jitter_Second_bounds [OF this N assms(2)] d show ?thesis by simp
qed

text \<open>
  C3, as the code has it. \<open>Jitter d m\<close> returns \<open>d\<close> plus a random share of \<open>m * d\<close>,
  so every delay that a resync over a store of \<open>N\<close> objects passes to \<open>EnqueueAfter\<close>
  lies between one second and \<open>N + 1\<close> seconds, the latter excluded: in
  \<open>[baseInterval, (N + 1) * baseInterval)\<close>, not in \<open>[0, N * baseInterval)\<close>. This holds
  for the calls of \<open>EnqueueAfter\<close> that the loop makes, and so for every \<open>AddAfter\<close> that
  \<open>FilteredGlobalResync\<close> or \<open>GlobalResync\<close> issues to the queue. The random values are
  those of \<^verbatim>\<open>rand.Float64()\<close>: \<^verbatim>\<open>float64\<close> numbers in \<open>[0, 1)\<close>; and the store
  is small enough for \<open>N + 1\<close> seconds to fit in an \<^verbatim>\<open>int64\<close> of nanoseconds.
\<close>

theorem resync_delay_bounds:
  assumes "\<forall>n. 0 \<le> rnd n \<and> rnd n < 1 \<and> float64 (rnd n) = rnd n"
    and "(int (length store) + 1) * 1000000000 < 2 ^ 63"
  shows "(\<forall>(ob, d) \<in> set (resyncCalls f store rnd).
            sint Second \<le> sint d \<and> sint d < (int (length store) + 1) * sint Second)
         \<and> (\<not> ShuttingDown (WorkQueue c) \<longrightarrow>
              FilteredGlobalResync f store rnd c =
                foldl (\<lambda>c (ob, d). EnqueueAfter ob d c) c (resyncCalls f store rnd))
         \<and> (\<forall>k d. AddAfter k d \<in> set (issued c (FilteredGlobalResync f store rnd c)) \<longrightarrow>
              sint Second \<le> sint d \<and> sint d < (int (length store) + 1) * sint Second)
         \<and> (\<forall>k d. AddAfter k d \<in> set (issued c (GlobalResync store rnd c)) \<longrightarrow>
              sint Second \<le> sint d \<and> sint d < (int (length store) + 1) * sint Second)"
proof (intro conjI)
  show "\<forall>(ob, d) \<in> set (resyncCalls f store rnd).
          sint Second \<le> sint d \<and> sint d < (int (length store) + 1) * sint Second"
    using resyncCalls_bounds [OF assms] by blast
  show "\<not> ShuttingDown (WorkQueue c) \<longrightarrow>
          FilteredGlobalResync f store rnd c =
            foldl (\<lambda>c (ob, d). EnqueueAfter ob d c) c (resyncCalls f store rnd)"
    by (simp add: FilteredGlobalResync_foldl)
  show "\<forall>k d. AddAfter k d \<in> set (issued c (FilteredGlobalResync f store rnd c)) \<longrightarrow>
          sint Second \<le> sint d \<and> sint d < (int (length store) + 1) * sint Second"
    using issued_FilteredGlobalResync [of _ _ c f store rnd] resyncCalls_bounds [OF assms] by blast
  show "\<forall>k d. AddAfter k d \<in> set (issued c (GlobalResync store rnd c)) \<longrightarrow>
          sint Second \<le> sint d \<and> sint d < (int (length store) + 1) * sint Second"
    unfolding GlobalResync_def
    using issued_FilteredGlobalResync [of _ _ c alwaysTrue store rnd] resyncCalls_bounds [OF assms]
    by blast
qed

theorem resync_delay_bounds_witness:
  "issued emptyImpl
     (GlobalResync [Accessor sampleObject, Accessor ownedObject]
        (constSource (7989851951588685 / 18014398509481984)) emptyImpl)
     = [AddAfter \<lparr>Namespace = ''ns'', Name = ''a''\<rparr> 1887051760,
        AddAfter \<lparr>Namespace = ''ns'', Name = ''pod-1''\<rparr> 1887051760]
   \<and> sint Second \<le> sint (1887051760 :: Duration)
   \<and> sint (1887051760 :: Duration) < 3 * sint Second"
proof -
  let ?r = "7989851951588685 / 18014398509481984 :: rat"
  let ?store = "[Accessor sampleObject, Accessor ownedObject]"
  have double: "float64 ?r = ?r"
    by code_simp
  have source: "\<forall>n. 0 \<le> constSource ?r n \<and> constSource ?r n < 1
                  \<and> float64 (constSource ?r n) = constSource ?r n"
    using double by (simp add: constSource_def)
  have fits: "(int (length ?store) + 1) * 1000000000 < 2 ^ 63"
    by simp
  have delay: "Jitter Second (float64 2) ?r = 1887051760"
    by code_simp
  have run: "issued emptyImpl (GlobalResync ?store (constSource ?r) emptyImpl)
               = [AddAfter \<lparr>Namespace = ''ns'', Name = ''a''\<rparr> 1887051760,
                  AddAfter \<lparr>Namespace = ''ns'', Name = ''pod-1''\<rparr> 1887051760]"
    by (simp add: GlobalResync_def FilteredGlobalResync_def alwaysTrue_def constSource_def delay
          issued_def emptyImpl_def EnqueueAfter_def EnqueueKeyAfter_def sampleObject_def
          ownedObject_def)
  from resync_delay_bounds [OF source fits, of alwaysTrue emptyImpl]
  have "\<forall>k d. AddAfter k d \<in> set (issued emptyImpl (GlobalResync ?store (constSource ?r) emptyImpl)) \<longrightarrow>
          sint Second \<le> sint d \<and> sint d < (int (length ?store) + 1) * sint Second"
    by blast
  then have "sint Second \<le> sint (1887051760 :: Duration)
             \<and> sint (1887051760 :: Duration) < (int (length ?store) + 1) * sint Second"
    unfolding run by simp
  with run show ?thesis by simp
qed

text \<open>
  The interval \<open>[0, N * baseInterval)\<close> fails on a store of one object: whatever the
  random value (here 0), the delay is at least one second, which is \<open>N * baseInterval\<close>
  and so outside the interval.
\<close>

theorem resync_delay_counterexample:
  "resyncCalls alwaysTrue [Accessor sampleObject] (constSource 0) = [(Accessor sampleObject, Second)]
   \<and> issued emptyImpl (GlobalResync [Accessor sampleObject] (constSource 0) emptyImpl)
       = [AddAfter \<lparr>Namespace = ''ns'', Name = ''a''\<rparr> Second]
   \<and> \<not> (0 \<le> sint Second \<and> sint Second < int (length [Accessor sampleObject]) * sint Second)"
  by (simp add: resyncCalls_def alwaysTrue_def constSource_def Jitter_def toInt64_def float64_def
        issued_def GlobalResync_def FilteredGlobalResync_def emptyImpl_def EnqueueAfter_def
        EnqueueKeyAfter_def sampleObject_def)

subsection \<open>C8: resync period and tracker lease\<close>

lemma GetResyncPeriod_attached:
  "(\<forall>d'. resyncPeriodValue d' \<notin> set later) \<longrightarrow> GetResyncPeriod (later @ WithResyncPeriod ctx d) = d"
  by (induction later rule: Value_resyncPeriodKey.induct)
    (auto simp add: GetResyncPeriod_def WithResyncPeriod_def)

lemma Value_resyncPeriodKey_None:
  "(\<forall>d. resyncPeriodValue d \<notin> set ctx) \<Longrightarrow> Value_resyncPeriodKey ctx = None"
  by (induction ctx rule: Value_resyncPeriodKey.induct) auto

lemma sint_triple:
  "- (2 ^ 63) \<le> 3 * sint (p :: 64 word) \<Longrightarrow> 3 * sint p < 2 ^ 63 \<Longrightarrow> sint (3 * p) = 3 * sint p"
  by (simp add: sint_word_ariths signed_take_bit_int_eq_self)

text \<open>
  C8. \<open>GetResyncPeriod\<close> returns the duration that \<open>WithResyncPeriod\<close> attached, also
  through values attached later under other keys, and the default of ten hours when the
  context carries none. \<open>GetTrackerLease\<close> is three times \<open>GetResyncPeriod\<close>: the product
  is Go's, on \<^verbatim>\<open>int64\<close>, and is three times the period as a number whenever that fits in
  an \<^verbatim>\<open>int64\<close> (for the default: thirty hours).
\<close>

theorem GetResyncPeriod_lease:
  "((\<forall>d'. resyncPeriodValue d' \<notin> set later) \<longrightarrow> GetResyncPeriod (later @ WithResyncPeriod ctx d) = d)
   \<and> GetResyncPeriod (WithResyncPeriod ctx d) = d
   \<and> ((\<forall>d'. resyncPeriodValue d' \<notin> set ctx) \<longrightarrow>
         GetResyncPeriod ctx = DefaultResyncPeriod \<and> sint (GetTrackerLease ctx) = 30 * 3600 * 1000000000)
   \<and> sint DefaultResyncPeriod = 10 * 3600 * 1000000000
   \<and> GetTrackerLease ctx = 3 * GetResyncPeriod ctx
   \<and> (- (2 ^ 63) \<le> 3 * sint (GetResyncPeriod ctx) \<and> 3 * sint (GetResyncPeriod ctx) < 2 ^ 63 \<longrightarrow>
         sint (GetTrackerLease ctx) = 3 * sint (GetResyncPeriod ctx))"
  using GetResyncPeriod_attached [of later ctx d] GetResyncPeriod_attached [of "[]" ctx d]
  by (auto simp add: GetTrackerLease_def sint_triple GetResyncPeriod_def Value_resyncPeriodKey_None
        DefaultResyncPeriod_def Hour_def Second_def)

theorem GetResyncPeriod_lease_witness:
  "GetResyncPeriod (WithEventRecorder (WithResyncPeriod [] (5 * Second)) ''recorder'') = 5 * Second
   \<and> GetResyncPeriod (WithEventRecorder [] ''recorder'') = DefaultResyncPeriod
   \<and> sint (GetTrackerLease (WithEventRecorder [] ''recorder'')) = 108000000000000
   \<and> sint (GetTrackerLease (WithResyncPeriod [] (5 * Second))) = 15000000000"
proof -
  let ?er = "WithEventRecorder [] ''recorder''"
  have none: "\<forall>d'. resyncPeriodValue d' \<notin> set ?er"
    by (simp add: WithEventRecorder_def)
  have none': "\<forall>d'. resyncPeriodValue d' \<notin> set [eventRecorderValue ''recorder'']"
    by simp
  have 1: "GetResyncPeriod (WithEventRecorder (WithResyncPeriod [] (5 * Second)) ''recorder'')
             = 5 * Second"
    using GetResyncPeriod_lease [of "[eventRecorderValue ''recorder'']" "[]" "5 * Second"] none'
    by (simp add: WithEventRecorder_def)
  have 2: "GetResyncPeriod ?er = DefaultResyncPeriod
           \<and> sint (GetTrackerLease ?er) = 30 * 3600 * 1000000000"
    using GetResyncPeriod_lease [of "[]" ?er "5 * Second"] none by blast
  have p: "GetResyncPeriod (WithResyncPeriod [] (5 * Second)) = 5 * Second"
    using GetResyncPeriod_lease [of "[]" "[]" "5 * Second"] by simp
  have fits: "- (2 ^ 63) \<le> 3 * sint (GetResyncPeriod (WithResyncPeriod [] (5 * Second)))
              \<and> 3 * sint (GetResyncPeriod (WithResyncPeriod [] (5 * Second))) < 2 ^ 63"
    unfolding p by (simp add: Second_def)
  have "sint (GetTrackerLease (WithResyncPeriod [] (5 * Second)))
          = 3 * sint (GetResyncPeriod (WithResyncPeriod [] (5 * Second)))"
    using GetResyncPeriod_lease [of "[]" "WithResyncPeriod [] (5 * Second)" "5 * Second"] fits
    by blast
  then have 3: "sint (GetTrackerLease (WithResyncPeriod [] (5 * Second))) = 15000000000"
    unfolding p by (simp add: Second_def)
  show ?thesis using 1 2 3 by simp
qed

subsection \<open>C5: the informer barrier\<close>














subsection \<open>C9: no key is reconciled twice at once\<close>

lemma remaining_cases:
  "remaining err k sh = [AddRateLimited k, Done k] \<or> remaining err k sh = [Forget k, Done k]"
  by (simp add: remaining_def requests_afterReconcile)

lemma inv_initial: "queue_inv initial"
  by (simp add: queue_inv_def initial_def)

lemma inv_q_Add: "queue_inv s \<Longrightarrow> queue_inv (s\<lparr>wq := q_Add k (wq s)\<rparr>)"
  by (auto simp add: queue_inv_def q_Add_def)

lemma inv_timers: "queue_inv s \<Longrightarrow> queue_inv (s\<lparr>wq := (wq s)\<lparr>timers := ts\<rparr>\<rparr>)"
  by (simp add: queue_inv_def)

lemma inv_failures: "queue_inv s \<Longrightarrow> queue_inv (s\<lparr>wq := (wq s)\<lparr>failures := fs\<rparr>\<rparr>)"
  by (simp add: queue_inv_def)

lemma inv_shutDown: "queue_inv s \<Longrightarrow> queue_inv (s\<lparr>wq := (wq s)\<lparr>shutDown := b\<rparr>\<rparr>)"
  by (simp add: queue_inv_def)

lemma inv_q_AddAfter: "queue_inv s \<Longrightarrow> queue_inv (s\<lparr>wq := q_AddAfter k d (wq s)\<rparr>)"
  using inv_q_Add [of s k] inv_timers [of s]
  by (simp add: q_AddAfter_def)

lemma inv_q_fire: "queue_inv s \<Longrightarrow> queue_inv (s\<lparr>wq := q_fire i (wq s)\<rparr>)"
  using inv_q_Add [OF inv_timers, of s]
  by (simp add: q_fire_def)

lemma inv_q_AddRateLimited: "queue_inv s \<Longrightarrow> queue_inv (s\<lparr>wq := q_AddRateLimited b k (wq s)\<rparr>)"
  using inv_q_AddAfter [OF inv_failures, of s]
  by (simp add: q_AddRateLimited_def)

lemma inv_q_Forget: "queue_inv s \<Longrightarrow> queue_inv (s\<lparr>wq := q_Forget k (wq s)\<rparr>)"
  using inv_failures [of s] by (simp add: q_Forget_def)

lemma queue_invI:
  assumes "distinct (queue (wq s))"
    and "\<And>k. k \<in> set (queue (wq s)) \<longleftrightarrow> k \<in> dirty (wq s) \<and> k \<notin> processing (wq s)"
    and "\<And>k. k \<in> processing (wq s) \<longleftrightarrow> (\<exists>w. holds (workers s w) k)"
    and "\<And>w w' k. holds (workers s w) k \<Longrightarrow> holds (workers s w') k \<Longrightarrow> w = w'"
    and "\<And>w k calls. workers s w = Finishing k calls \<Longrightarrow> finishing k calls"
  shows "queue_inv s"
  unfolding queue_inv_def using assms by blast

lemma queue_inv_distinct: "queue_inv s \<Longrightarrow> distinct (queue (wq s))"
  by (simp add: queue_inv_def)

lemma queue_inv_members:
  "queue_inv s \<Longrightarrow> k \<in> set (queue (wq s)) \<longleftrightarrow> k \<in> dirty (wq s) \<and> k \<notin> processing (wq s)"
  by (simp add: queue_inv_def)

lemma queue_inv_held: "queue_inv s \<Longrightarrow> k \<in> processing (wq s) \<longleftrightarrow> (\<exists>w. holds (workers s w) k)"
  by (simp add: queue_inv_def)

lemma queue_inv_unique:
  "queue_inv s \<Longrightarrow> holds (workers s w) k \<Longrightarrow> holds (workers s w') k \<Longrightarrow> w = w'"
  unfolding queue_inv_def by blast

lemma queue_inv_finishing: "queue_inv s \<Longrightarrow> workers s w = Finishing k calls \<Longrightarrow> finishing k calls"
  unfolding queue_inv_def by blast

lemma queue_inv_same_keys:
  assumes inv: "queue_inv s"
    and same: "\<And>k'. holds x k' = holds (workers s w) k'"
    and wf: "\<And>k' calls. x = Finishing k' calls \<Longrightarrow> finishing k' calls"
  shows "queue_inv (s\<lparr>workers := (workers s)(w := x)\<rparr>)"
proof (rule queue_invI)
  let ?s = "s\<lparr>workers := (workers s)(w := x)\<rparr>"
  have H: "\<And>w' k'. holds (workers ?s w') k' = holds (workers s w') k'"
    using same by simp
  show "distinct (queue (wq ?s))"
    using inv by (simp add: queue_inv_distinct)
  show "k \<in> set (queue (wq ?s)) \<longleftrightarrow> k \<in> dirty (wq ?s) \<and> k \<notin> processing (wq ?s)" for k
    using queue_inv_members [OF inv, of k] by simp
  show "k \<in> processing (wq ?s) \<longleftrightarrow> (\<exists>w. holds (workers ?s w) k)" for k
    unfolding H using queue_inv_held [OF inv, of k] by simp
  show "w1 = w2" if "holds (workers ?s w1) k" "holds (workers ?s w2) k" for w1 w2 k
    using that unfolding H by (rule queue_inv_unique [OF inv])
  show "finishing k calls" if "workers ?s w' = Finishing k calls" for w' k calls
    using that wf queue_inv_finishing [OF inv, of w' k calls]
    by (cases "w' = w") simp_all
qed

lemma inv_leave:
  assumes "queue_inv s" "workers s w = Idle"
  shows "queue_inv (s\<lparr>workers := (workers s)(w := Exited)\<rparr>)"
  using assms by (intro queue_inv_same_keys) simp_all

lemma inv_return:
  assumes "queue_inv s" "workers s w = Reconciling k"
  shows "queue_inv (s\<lparr>workers := (workers s)(w := Finishing k (remaining err k sh))\<rparr>)"
  using assms remaining_cases [of err k sh]
  by (intro queue_inv_same_keys) (auto simp add: finishing_def)

lemma inv_get:
  assumes inv: "queue_inv s" and idle: "workers s w = Idle" and got: "q_Get (wq s) = Some (k, q')"
  shows "queue_inv (s\<lparr>wq := q', workers := (workers s)(w := Reconciling k)\<rparr>)"
proof (rule queue_invI)
  let ?s = "s\<lparr>wq := q', workers := (workers s)(w := Reconciling k)\<rparr>"
  from got obtain rest where q: "queue (wq s) = k # rest"
    and q': "q' = (wq s)\<lparr>queue := rest, dirty := dirty (wq s) - {k},
                         processing := insert k (processing (wq s))\<rparr>"
    by (auto simp add: q_Get_def split: list.splits)
  have dist: "distinct (k # rest)"
    using queue_inv_distinct [OF inv] q by simp
  have fresh: "k \<notin> processing (wq s)"
    using queue_inv_members [OF inv, of k] q by simp
  then have nobody: "\<And>w'. \<not> holds (workers s w') k"
    using queue_inv_held [OF inv, of k] by blast
  have H: "\<And>w' k'. holds (workers ?s w') k' \<longleftrightarrow> (w' = w \<and> k' = k) \<or> holds (workers s w') k'"
    using idle by auto
  show "distinct (queue (wq ?s))"
    using dist by (simp add: q')
  show "k' \<in> set (queue (wq ?s)) \<longleftrightarrow> k' \<in> dirty (wq ?s) \<and> k' \<notin> processing (wq ?s)" for k'
    using queue_inv_members [OF inv, of k'] q dist by (auto simp add: q')
  show "k' \<in> processing (wq ?s) \<longleftrightarrow> (\<exists>w. holds (workers ?s w) k')" for k'
    unfolding H using queue_inv_held [OF inv, of k'] by (auto simp add: q')
  show "w1 = w2" if "holds (workers ?s w1) k'" "holds (workers ?s w2) k'" for w1 w2 k'
    using that nobody queue_inv_unique [OF inv, of w1 k' w2] unfolding H by blast
  show "finishing k' calls" if "workers ?s w' = Finishing k' calls" for w' k' calls
    using that queue_inv_finishing [OF inv, of w' k' calls]
    by (cases "w' = w") simp_all
qed

lemma inv_done:
  assumes inv: "queue_inv s" and fin: "workers s w = Finishing k [Done k]"
  shows "queue_inv (s\<lparr>wq := q_Done k (wq s), workers := (workers s)(w := Idle)\<rparr>)"
proof (rule queue_invI)
  let ?s = "s\<lparr>wq := q_Done k (wq s), workers := (workers s)(w := Idle)\<rparr>"
  have mine: "holds (workers s w) k" using fin by simp
  have only: "\<And>k'. holds (workers s w) k' \<Longrightarrow> k' = k" using fin by simp
  have inproc: "k \<in> processing (wq s)"
    using queue_inv_held [OF inv, of k] mine by blast
  then have notq: "k \<notin> set (queue (wq s))"
    using queue_inv_members [OF inv, of k] by blast
  have H: "\<And>w' k'. holds (workers ?s w') k' \<longleftrightarrow> w' \<noteq> w \<and> holds (workers s w') k'"
    by auto
  show "distinct (queue (wq ?s))"
    using queue_inv_distinct [OF inv] notq by (simp add: q_Done_def)
  show "k' \<in> set (queue (wq ?s)) \<longleftrightarrow> k' \<in> dirty (wq ?s) \<and> k' \<notin> processing (wq ?s)" for k'
    using queue_inv_members [OF inv, of k'] inproc by (auto simp add: q_Done_def)
  show "k' \<in> processing (wq ?s) \<longleftrightarrow> (\<exists>w. holds (workers ?s w) k')" for k'
  proof
    assume "k' \<in> processing (wq ?s)"
    then have k': "k' \<in> processing (wq s)" "k' \<noteq> k" by (simp_all add: q_Done_def)
    then obtain w' where w': "holds (workers s w') k'"
      using queue_inv_held [OF inv, of k'] by blast
    have "w' \<noteq> w" using w' k'(2) only by auto
    with w' show "\<exists>w. holds (workers ?s w) k'" unfolding H by blast
  next
    assume "\<exists>w. holds (workers ?s w) k'"
    then obtain w' where w': "w' \<noteq> w" "holds (workers s w') k'" unfolding H by blast
    have "k' \<noteq> k" using w' mine queue_inv_unique [OF inv, of w' k w] by auto
    moreover have "k' \<in> processing (wq s)"
      using queue_inv_held [OF inv, of k'] w' by blast
    ultimately show "k' \<in> processing (wq ?s)" by (simp add: q_Done_def)
  qed
  show "w1 = w2" if "holds (workers ?s w1) k'" "holds (workers ?s w2) k'" for w1 w2 k'
    using that queue_inv_unique [OF inv, of w1 k' w2] unfolding H by blast
  show "finishing k' calls" if "workers ?s w' = Finishing k' calls" for w' k' calls
    using that queue_inv_finishing [OF inv, of w' k' calls]
    by (cases "w' = w") simp_all
qed

lemma inv_request:
  assumes inv: "queue_inv s" and fin: "workers s w = Finishing k (call # calls)"
  shows "queue_inv (s\<lparr>wq := perform b call (wq s),
                      workers := (workers s)(w := (if calls = [] then Idle else Finishing k calls))\<rparr>)"
proof -
  from inv fin have "finishing k (call # calls)"
    unfolding queue_inv_def by blast
  then consider (last) "call = Done k" "calls = []"
    | (requeue) "call = AddRateLimited k" "calls = [Done k]"
    | (forget) "call = Forget k" "calls = [Done k]"
    by (auto simp add: finishing_def)
  then show ?thesis
  proof cases
    case last
    with inv fin inv_done [of s w k] show ?thesis by simp
  next
    case requeue
    have "queue_inv (s\<lparr>wq := q_AddRateLimited b k (wq s)\<rparr>)" (is "queue_inv ?s")
      using inv by (rule inv_q_AddRateLimited)
    then have "queue_inv (?s\<lparr>workers := (workers ?s)(w := Finishing k [Done k])\<rparr>)"
      using fin by (intro queue_inv_same_keys) (simp_all add: finishing_def)
    with requeue show ?thesis by simp
  next
    case forget
    have "queue_inv (s\<lparr>wq := q_Forget k (wq s)\<rparr>)" (is "queue_inv ?s")
      using inv by (rule inv_q_Forget)
    then have "queue_inv (?s\<lparr>workers := (workers ?s)(w := Finishing k [Done k])\<rparr>)"
      using fin by (intro queue_inv_same_keys) (simp_all add: finishing_def)
    with forget show ?thesis by simp
  qed
qed

lemma inv_step: "step b s s' \<Longrightarrow> queue_inv s \<Longrightarrow> queue_inv s'"
proof (induction rule: step.induct)
  case (produce s k) then show ?case by (simp add: inv_q_Add)
next
  case (produceAfter s k d) then show ?case by (simp add: inv_q_AddAfter)
next
  case (fire i s) then show ?case by (simp add: inv_q_fire)
next
  case (shut s) then show ?case using inv_shutDown [of s True] by (simp add: q_ShutDown_def)
next
  case (get s w k q') then show ?case by (simp add: inv_get)
next
  case (leave s w) then show ?case by (simp add: inv_leave)
next
  case (return s w k err) then show ?case by (simp add: inv_return)
next
  case (request s w k call calls) then show ?case by (simp add: inv_request)
qed

lemma reachable_inv: "reachable b s \<Longrightarrow> queue_inv s"
  by (induction rule: reachable.induct) (auto simp add: inv_initial inv_step)

text \<open>
  C9. In every state that the system reaches, whatever the producers, timers and workers
  do and in whatever order: no two workers are inside \<open>Reconcile\<close> for the same key;
  more generally no two workers hold the same key between \<open>Get\<close> and \<open>Done\<close>; the
  queue has no duplicates; and a key that a worker holds is not in the queue. So a key
  has at most one queued or in-flight occurrence.
\<close>

theorem one_reconcile_per_key:
  assumes "reachable backoff s"
  shows "(\<forall>w w' k. workers s w = Reconciling k \<and> workers s w' = Reconciling k \<longrightarrow> w = w')
         \<and> (\<forall>w w' k. holds (workers s w) k \<and> holds (workers s w') k \<longrightarrow> w = w')
         \<and> distinct (queue (wq s))
         \<and> (\<forall>w k. holds (workers s w) k \<longrightarrow> k \<notin> set (queue (wq s)))"
proof -
  have inv: "queue_inv s" using assms by (rule reachable_inv)
  have unique: "\<forall>w w' k. holds (workers s w) k \<and> holds (workers s w') k \<longrightarrow> w = w'"
    using inv unfolding queue_inv_def by blast
  have "\<forall>w w' k. workers s w = Reconciling k \<and> workers s w' = Reconciling k \<longrightarrow> w = w'"
  proof (intro allI impI)
    fix w w' k assume "workers s w = Reconciling k \<and> workers s w' = Reconciling k"
    then have "holds (workers s w) k \<and> holds (workers s w') k" by simp
    then show "w = w'" using unique by blast
  qed
  moreover have "distinct (queue (wq s))" using inv by (simp add: queue_inv_def)
  moreover have "\<forall>w k. holds (workers s w) k \<longrightarrow> k \<notin> set (queue (wq s))"
    using inv unfolding queue_inv_def by blast
  ultimately show ?thesis using unique by blast
qed


theorem one_reconcile_per_key_witness:
  "reachable sampleBackoff sampleRun
   \<and> workers sampleRun 0 = Reconciling sampleKey
   \<and> sampleKey \<in> dirty (wq sampleRun)
   \<and> sampleKey \<notin> set (queue (wq sampleRun))
   \<and> distinct (queue (wq sampleRun))"
proof -
  let ?s1 = "initial\<lparr>wq := q_Add sampleKey (wq initial)\<rparr>"
  let ?q2 = "\<lparr>queue = [], dirty = {}, processing = {sampleKey}, failures = (\<lambda>k. 0),
              timers = [], shutDown = False\<rparr>"
  let ?s2 = "?s1\<lparr>wq := ?q2, workers := (workers ?s1)(0 := Reconciling sampleKey)\<rparr>"
  let ?s3 = "?s2\<lparr>wq := q_Add sampleKey (wq ?s2)\<rparr>"
  have r1: "reachable sampleBackoff ?s1"
    by (rule reachable.after_step [OF reachable.at_start step.produce])
  have idle: "workers ?s1 0 = Idle"
    by (simp add: initial_def)
  have got: "q_Get (wq ?s1) = Some (sampleKey, ?q2)"
    by (simp add: q_Get_def q_Add_def initial_def)
  have r2: "reachable sampleBackoff ?s2"
    by (rule reachable.after_step [OF r1 step.get [OF idle got]])
  have r3: "reachable sampleBackoff ?s3"
    by (rule reachable.after_step [OF r2 step.produce])
  have "?s3 = sampleRun"
    by (simp add: sampleRun_def initial_def q_Add_def)
  with r3 have reach: "reachable sampleBackoff sampleRun" by simp
  have mine: "holds (workers sampleRun 0) sampleKey"
    by (simp add: sampleRun_def)
  from one_reconcile_per_key [OF reach] mine
  have "sampleKey \<notin> set (queue (wq sampleRun))" "distinct (queue (wq sampleRun))"
    by blast+
  with reach show ?thesis by (simp add: sampleRun_def)
qed

end
